theory Spec2Isabelle
  imports Main
begin

section \<open>fuefit command line: option checks, token parsers and model overrides\<close>

text \<open>
  A shallow embedding of \<^verbatim>\<open>fuefit/main.py\<close>. Python exceptions are values of the
  type \<open>error\<close>, a function that may raise returns \<open>error + 'a\<close> with \<open>Inl\<close> the
  exception. Text is \<open>string\<close>: a \<open>char\<close> is one of the 256 code points U+0000 to
  U+00FF of a Python \<^verbatim>\<open>str\<close>, and text with a code point beyond them is outside the
  type. The character classes of the regular expressions are those of Python 3
  \<^verbatim>\<open>str\<close> patterns, which are Unicode-aware (the patterns carry no \<^verbatim>\<open>re.ASCII\<close> flag), on
  these code points.
\<close>

subsection \<open>Exceptions\<close>

datatype error =
    ValueError string
  | ArgumentTypeError string
  | PathResolutionError string
  | ValidationError string
  | TypeError string

subsection \<open>Formatting of counts\<close>

text \<open>The \<^verbatim>\<open>%i\<close> conversion of a non-negative integer: its decimal digits.\<close>

fun str_nat :: "nat \<Rightarrow> string" where
  "str_nat n =
     (if n < 10 then [''0123456789'' ! n]
      else str_nat (n div 10) @ [''0123456789'' ! (n mod 10)])"

declare str_nat.simps [simp del]

subsection \<open>Parsed options\<close>

text \<open>
  The namespace that \<^verbatim>\<open>parse_args\<close> returns. An option with \<^verbatim>\<open>action='append'\<close>
  that was never given is \<^verbatim>\<open>None\<close>; otherwise it is the list of its occurrences, and
  with \<^verbatim>\<open>nargs='+'\<close> each occurrence is itself a list. A column specification is the
  triple of groups that \<^verbatim>\<open>column_specifier\<close> returns.
\<close>

type_synonym colspec = "string \<times> string option \<times> string option"

record opts =
  ifile :: "string list option"
  icolumns :: "colspec list list option"
  irenames :: "colspec list list option"
  iformat :: "string list option"
  opt_I :: "(string \<times> string) list list option"
  opt_m :: "(string \<times> string) list list option"
  debug :: bool
  verbose :: nat

subsection \<open>\<^verbatim>\<open>validate_opts\<close>\<close>

text \<open>
  \<^verbatim>\<open>dopts[ropt]\<close> for the four related options, reduced to what the function reads of
  the value: \<open>None\<close> when it is \<^verbatim>\<open>None\<close>, else its \<^verbatim>\<open>len\<close>.
\<close>

definition rel_opts :: "string list" where
  "rel_opts = [''icolumns'', ''irenames'', ''iformat'', ''I'']"

definition dopts :: "opts \<Rightarrow> string \<Rightarrow> nat option" where
  "dopts opts ropt =
     (if ropt = ''icolumns'' then map_option length (icolumns opts)
      else if ropt = ''irenames'' then map_option length (irenames opts)
      else if ropt = ''iformat'' then map_option length (iformat opts)
      else if ropt = ''I'' then map_option length (opt_I opts)
      else None)"

definition n_infiles :: "opts \<Rightarrow> nat" where
  "n_infiles opts =
     (case ifile opts of
        None \<Rightarrow> 1
      | Some fs \<Rightarrow> if fs = [] then 1 else length fs)"

definition mismatch_message :: "string \<Rightarrow> nat \<Rightarrow> nat \<Rightarrow> string" where
  "mismatch_message ropt n_ropt n =
     ''Number of --'' @ ropt @ ''('' @ str_nat n_ropt @ '') mismatches number of --infile(''
       @ str_nat n @ '')!''"

text \<open>The loop over \<^verbatim>\<open>rel_opts\<close>; a \<^verbatim>\<open>None\<close> or empty value is falsy and skipped.\<close>

fun validate_rel_opts :: "opts \<Rightarrow> string list \<Rightarrow> error + opts" where
  "validate_rel_opts opts [] = Inr opts"
| "validate_rel_opts opts (ropt # rest) =
     (case dopts opts ropt of
        None \<Rightarrow> validate_rel_opts opts rest
      | Some n_ropt \<Rightarrow>
          if n_ropt = 0 then validate_rel_opts opts rest
          else if n_ropt > 1 \<and> n_ropt \<noteq> n_infiles opts
          then Inl (ValueError (mismatch_message ropt n_ropt (n_infiles opts)))
          else validate_rel_opts opts rest)"

definition validate_opts :: "opts \<Rightarrow> error + opts" where
  "validate_opts opts = validate_rel_opts opts rel_opts"

text \<open>The number \<open>k\<close> of values supplied for an option: 0 when it is absent.\<close>

definition opt_count :: "opts \<Rightarrow> string \<Rightarrow> nat" where
  "opt_count opts ropt = (case dopts opts ropt of None \<Rightarrow> 0 | Some k \<Rightarrow> k)"

definition count_ok :: "opts \<Rightarrow> string \<Rightarrow> bool" where
  "count_ok opts ropt =
     (opt_count opts ropt = 0 \<or> opt_count opts ropt = 1 \<or> opt_count opts ropt = n_infiles opts)"

subsection \<open>Regular expressions\<close>

text \<open>
  The character classes \<^verbatim>\<open>\s\<close>, \<^verbatim>\<open>[A-Za-z]\<close>, \<^verbatim>\<open>\w\<close> and \<^verbatim>\<open>.\<close> (any character but
  a newline). \<^verbatim>\<open>\s\<close> is the Unicode whitespace below U+0100: the ASCII blanks, the
  separators U+001C to U+001F, the next-line control U+0085 and the no-break space
  U+00A0; they are also what \<^verbatim>\<open>str.strip()\<close> removes. \<^verbatim>\<open>\w\<close> is the underscore and every
  alphanumeric character: the ASCII letters and digits and, from U+0080 on, the 71
  letters and numeric characters of Latin-1 (the ordinal indicators, the superscript
  digits, the micro sign, the three fractions and the accented letters, which leave
  out the multiplication and the division sign).
\<close>

definition is_space :: "char \<Rightarrow> bool" where
  "is_space c = (c \<in> set [CHR 0x09, CHR 0x0A, CHR 0x0B, CHR 0x0C, CHR 0x0D,
                           CHR 0x1C, CHR 0x1D, CHR 0x1E, CHR 0x1F, CHR 0x20,
                           CHR 0x85, CHR 0xA0])"

definition is_alpha :: "char \<Rightarrow> bool" where
  "is_alpha c =
     (let n = (of_char c :: nat) in (65 \<le> n \<and> n \<le> 90) \<or> (97 \<le> n \<and> n \<le> 122))"

definition is_word :: "char \<Rightarrow> bool" where
  "is_word c =
     (let n = (of_char c :: nat) in
        (65 \<le> n \<and> n \<le> 90) \<or> (97 \<le> n \<and> n \<le> 122) \<or> (48 \<le> n \<and> n \<le> 57) \<or> n = 95 \<or>
        n = 170 \<or> (178 \<le> n \<and> n \<le> 179) \<or> n = 181 \<or> (185 \<le> n \<and> n \<le> 186) \<or>
        (188 \<le> n \<and> n \<le> 190) \<or> (192 \<le> n \<and> n \<le> 214) \<or> (216 \<le> n \<and> n \<le> 246) \<or>
        (248 \<le> n \<and> n \<le> 255))"

definition not_newline :: "char \<Rightarrow> bool" where
  "not_newline c = (c \<noteq> CHR 0x0A)"

text \<open>
  A backtracking matcher in continuation-passing style, as Python's \<^verbatim>\<open>re\<close> runs a
  pattern: a pattern takes the continuation that matches the rest of the pattern, the
  groups captured so far and the remaining text; \<open>None\<close> makes the caller try its next
  alternative. A greedy repetition tries the longest run first and gives characters
  back one at a time. Patterns are put in sequence with \<open>\<circ>\<close>.
\<close>

type_synonym groups = "nat \<Rightarrow> string option"
type_synonym cont = "groups \<Rightarrow> string \<Rightarrow> groups option"
type_synonym rx = "cont \<Rightarrow> cont"

fun rx_char :: "(char \<Rightarrow> bool) \<Rightarrow> rx" where
  "rx_char P k g [] = None"
| "rx_char P k g (c # cs) = (if P c then k g cs else None)"

fun rx_star :: "(char \<Rightarrow> bool) \<Rightarrow> rx" where
  "rx_star P k g [] = k g []"
| "rx_star P k g (c # cs) =
     (if P c then (case rx_star P k g cs of Some r \<Rightarrow> Some r | None \<Rightarrow> k g (c # cs))
      else k g (c # cs))"

definition rx_plus :: "(char \<Rightarrow> bool) \<Rightarrow> rx" where
  "rx_plus P k = rx_char P (rx_star P k)"

text \<open>\<^verbatim>\<open>(...)?\<close>: the group is tried first; when it is skipped its captures stay unset.\<close>

definition rx_opt :: "rx \<Rightarrow> rx" where
  "rx_opt r k g s = (case r k g s of Some x \<Rightarrow> Some x | None \<Rightarrow> k g s)"

text \<open>A capturing group records the text that its pattern consumed.\<close>

definition rx_group :: "nat \<Rightarrow> rx \<Rightarrow> rx" where
  "rx_group i r k g s =
     r (\<lambda>g' s'. k (g'(i \<mapsto> take (length s - length s') s)) s') g s"

text \<open>\<^verbatim>\<open>$\<close> without \<^verbatim>\<open>re.MULTILINE\<close>: the end of the text, or just before a final newline.\<close>

definition at_eol :: "string \<Rightarrow> bool" where
  "at_eol s = (s = [] \<or> s = [CHR 0x0A])"

definition rx_eol :: rx where
  "rx_eol k g s = (if at_eol s then k g s else None)"

text \<open>\<^verbatim>\<open>pattern.match(s)\<close>: the groups of the first match from the start of \<open>s\<close>.\<close>

definition re_match :: "rx \<Rightarrow> string \<Rightarrow> groups option" where
  "re_match r s = r (\<lambda>g s'. Some g) (\<lambda>i. None) s"

subsection \<open>\<^verbatim>\<open>key_value_pair\<close>\<close>

text \<open>\<^verbatim>\<open>^\s*([A-Za-z]\w*)\s*=\s*(.*)$\<close>; group \<open>n\<close> of Python is group \<open>n - 1\<close> here.\<close>

definition key_value_regex :: rx where
  "key_value_regex =
     rx_star is_space \<circ> rx_group 0 (rx_char is_alpha \<circ> rx_star is_word) \<circ> rx_star is_space
       \<circ> rx_char (\<lambda>c. c = CHR ''='') \<circ> rx_star is_space \<circ> rx_group 1 (rx_star not_newline)
       \<circ> rx_eol"

text \<open>
  \<^verbatim>\<open>m.groups()\<close> is the pair of both groups; each takes part in every match, so the
  last branch is never taken (lemma \<open>key_value_pair_result\<close>).
\<close>

definition key_value_pair :: "string \<Rightarrow> error + string \<times> string" where
  "key_value_pair arg =
     (case re_match key_value_regex arg of
        None \<Rightarrow> Inl (ArgumentTypeError (''Not a KEY=VALUE syntax: '' @ arg))
      | Some g \<Rightarrow>
          (case (g 0, g 1) of
             (Some key, Some val) \<Rightarrow> Inr (key, val)
           | _ \<Rightarrow> Inl (TypeError ''groups'')))"

subsection \<open>\<^verbatim>\<open>column_specifier\<close>\<close>

text \<open>
  \<^verbatim>\<open>^\s*([^(]+)\s*(\(([^)]+)\))?\s*$\<close>: three groups, the name, the parenthesised
  units and the units; \<^verbatim>\<open>m.groups()\<close> is the triple of them, with \<^verbatim>\<open>None\<close> for a group
  that took no part in the match.
\<close>

definition column_specifier_regex :: rx where
  "column_specifier_regex =
     rx_star is_space \<circ> rx_group 0 (rx_plus (\<lambda>c. c \<noteq> CHR ''('')) \<circ> rx_star is_space
       \<circ> rx_opt (rx_group 1 (rx_char (\<lambda>c. c = CHR ''('')
                      \<circ> rx_group 2 (rx_plus (\<lambda>c. c \<noteq> CHR '')''))
                      \<circ> rx_char (\<lambda>c. c = CHR '')'')))
       \<circ> rx_star is_space \<circ> rx_eol"

text \<open>
  The name group takes part in every match, so the last branch is never taken.
\<close>

definition column_specifier :: "string \<Rightarrow> error + colspec" where
  "column_specifier arg =
     (case re_match column_specifier_regex arg of
        None \<Rightarrow> Inl (ArgumentTypeError (''Not a COLUMN_SPEC syntax: '' @ arg))
      | Some g \<Rightarrow>
          (case g 0 of
             Some name \<Rightarrow> Inr (name, g 1, g 2)
           | None \<Rightarrow> Inl (TypeError ''groups'')))"

text \<open>
  For the properties of the name: a continuation that leaves the first group as it
  found it.
\<close>

definition keeps_name :: "cont \<Rightarrow> bool" where
  "keeps_name k = (\<forall>g s r. k g s = Some r \<longrightarrow> r 0 = g 0)"

subsection \<open>The KEY=VALUE grammar, stated on the text\<close>

text \<open>
  What the properties below say about the text of an argument: a key is a letter
  followed by word characters; a value has no newline and does not begin with
  whitespace; \<open>kv_form\<close> holds of the pieces of
  \<open>ws1 @ k @ ws2 @ ''='' @ ws3 @ v @ nl\<close>. \<open>after_first_eq\<close> is everything after the
  first \<^verbatim>\<open>=\<close>, and \<open>strip\<close> is \<^verbatim>\<open>str.strip()\<close>: the text without its leading and
  trailing whitespace.
\<close>

definition is_key :: "string \<Rightarrow> bool" where
  "is_key k = (case k of [] \<Rightarrow> False | c # cs \<Rightarrow> is_alpha c \<and> list_all is_word cs)"

definition is_value :: "string \<Rightarrow> bool" where
  "is_value v =
     (list_all not_newline v \<and> (case v of [] \<Rightarrow> True | c # _ \<Rightarrow> \<not> is_space c))"

definition kv_form ::
  "string \<Rightarrow> string \<Rightarrow> string \<Rightarrow> string \<Rightarrow> string \<Rightarrow> string \<Rightarrow> bool" where
  "kv_form ws1 k ws2 ws3 v nl =
     (list_all is_space ws1 \<and> is_key k \<and> list_all is_space ws2 \<and> list_all is_space ws3 \<and>
      is_value v \<and> at_eol nl)"

definition after_first_eq :: "string \<Rightarrow> string" where
  "after_first_eq s = drop 1 (dropWhile (\<lambda>c. c \<noteq> CHR ''='') s)"

definition strip :: "string \<Rightarrow> string" where
  "strip s = rev (dropWhile is_space (rev (dropWhile is_space s)))"

subsection \<open>The model document and the pointer-set\<close>

text \<open>
  The model document is a nested mapping with scalar leaves. A mapping keeps its
  entries in insertion order, as a Python \<^verbatim>\<open>dict\<close> does; \<open>dict_set\<close> is the assignment
  \<^verbatim>\<open>d[key] = v\<close>: it replaces the value of a key that is present and adds a key that is
  not.
\<close>

datatype json = JNull | JBool bool | JNum int | JStr string | JObj "(string \<times> json) list"

fun dict_set :: "string \<Rightarrow> json \<Rightarrow> (string \<times> json) list \<Rightarrow> (string \<times> json) list" where
  "dict_set key v [] = [(key, v)]"
| "dict_set key v ((k, w) # kvs) =
     (if k = key then (key, v) # kvs else (k, w) # dict_set key v kvs)"

text \<open>
  Modelled from the spec: \<^verbatim>\<open>jsonpointer.set_pointer\<close>, which \<^verbatim>\<open>main.py\<close> imports and
  whose source is not among the files of the repository. The spec has it as a
  JSON-Pointer write into a nested document: the pointer is split at \<^verbatim>\<open>/\<close> into
  segments (with the escapes \<^verbatim>\<open>~1\<close> for \<^verbatim>\<open>/\<close> and \<^verbatim>\<open>~0\<close> for \<^verbatim>\<open>~\<close> of a JSON Pointer); every
  segment but the last must resolve to an existing container, else the write fails with
  a PathResolutionError naming the unresolved segment; the last segment is assigned in
  the parent container. Arrays are not part of the model.
\<close>

fun split_on :: "char \<Rightarrow> string \<Rightarrow> string list" where
  "split_on sep [] = [[]]"
| "split_on sep (c # cs) =
     (if c = sep then [] # split_on sep cs
      else (case split_on sep cs of [] \<Rightarrow> [[c]] | p # ps \<Rightarrow> (c # p) # ps))"

fun replace2 :: "char \<Rightarrow> char \<Rightarrow> char \<Rightarrow> string \<Rightarrow> string" where
  "replace2 a b r (x # y # zs) =
     (if x = a \<and> y = b then r # replace2 a b r zs else x # replace2 a b r (y # zs))"
| "replace2 a b r xs = xs"

definition unescape :: "string \<Rightarrow> string" where
  "unescape part =
     replace2 (CHR ''~'') (CHR ''0'') (CHR ''~'')
       (replace2 (CHR ''~'') (CHR ''1'') (CHR ''/'') part)"

text \<open>
  Modelled from the spec: the segments of a JSON Pointer (the parsing that
  \<^verbatim>\<open>jsonpointer.set_pointer\<close> does, absent from the source files). A pointer that is not
  empty must begin with \<^verbatim>\<open>/\<close>.
\<close>

definition parse_pointer :: "string \<Rightarrow> error + string list" where
  "parse_pointer pointer =
     (case split_on (CHR ''/'') pointer of
        [] \<Rightarrow> Inl (PathResolutionError pointer)
      | first # parts \<Rightarrow>
          if first \<noteq> [] then Inl (PathResolutionError pointer) else Inr (map unescape parts))"

text \<open>
  Modelled from the spec: the write itself, on the segments of the pointer (the body of
  \<^verbatim>\<open>jsonpointer.set_pointer\<close>, absent from the source files). Every segment but the last
  must resolve to an existing mapping; the error names the segment that does not.
\<close>

fun set_parts :: "json \<Rightarrow> string list \<Rightarrow> json \<Rightarrow> error + json" where
  "set_parts doc [] v = Inl (PathResolutionError [])"
| "set_parts (JObj kvs) [part] v = Inr (JObj (dict_set part v kvs))"
| "set_parts (JObj kvs) (part # rest) v =
     (case map_of kvs part of
        Some (JObj sub) \<Rightarrow>
          (case set_parts (JObj sub) rest v of
             Inl e \<Rightarrow> Inl e
           | Inr sub' \<Rightarrow> Inr (JObj (dict_set part sub' kvs)))
      | _ \<Rightarrow> Inl (PathResolutionError part))"
| "set_parts doc (part # rest) v = Inl (PathResolutionError part)"

text \<open>
  Modelled from the spec: \<^verbatim>\<open>jsonpointer.set_pointer(doc, pointer, value)\<close>, absent from the
  source files: the pointer is parsed, then written through.
\<close>

definition set_pointer :: "json \<Rightarrow> string \<Rightarrow> json \<Rightarrow> error + json" where
  "set_pointer doc pointer v =
     (case parse_pointer pointer of Inl e \<Rightarrow> Inl e | Inr parts \<Rightarrow> set_parts doc parts v)"

text \<open>What a path resolves to in a document: the reading side of a pointer.\<close>

fun value_at :: "json \<Rightarrow> string list \<Rightarrow> json option" where
  "value_at doc [] = Some doc"
| "value_at (JObj kvs) (part # rest) =
     (case map_of kvs part of None \<Rightarrow> None | Some sub \<Rightarrow> value_at sub rest)"
| "value_at doc (part # rest) = None"

subsection \<open>\<^verbatim>\<open>build_and_validate_model\<close>\<close>

text \<open>
  \<^verbatim>\<open>model.base_model()\<close> and the validator of \<^verbatim>\<open>model.model_validator()\<close> come from a
  module that is not among the source files: the base document and the validator are
  parameters, and so is the pointer-set. A validator returns the message of its
  ValidationError, or \<open>None\<close> when the document is valid.
\<close>

definition model_default_prefix :: string where
  "model_default_prefix = ''/engine/''"

definition startswith :: "string \<Rightarrow> string \<Rightarrow> bool" where
  "startswith s pre = (take (length pre) s = pre)"

text \<open>\<^verbatim>\<open>functools.reduce(lambda x,y: x+y, model_overrides)\<close>\<close>

fun reduce_add :: "'a list list \<Rightarrow> error + 'a list" where
  "reduce_add [] = Inl (TypeError ''reduce() of empty sequence with no initial value'')"
| "reduce_add (x # xs) = Inr (foldl (@) x xs)"

text \<open>The loop over the pairs; the document it mutates is passed along.\<close>

fun set_overrides ::
  "(json \<Rightarrow> string \<Rightarrow> json \<Rightarrow> error + json) \<Rightarrow> json \<Rightarrow> (string \<times> string) list \<Rightarrow> error + json"
where
  "set_overrides set_ptr mdl [] = Inr mdl"
| "set_overrides set_ptr mdl ((json_path, val) # rest) =
     (case set_ptr mdl
             (if \<not> startswith json_path ''/'' then model_default_prefix @ json_path
              else json_path)
             (JStr val) of
        Inl e \<Rightarrow> Inl e
      | Inr mdl' \<Rightarrow> set_overrides set_ptr mdl' rest)"

definition build_and_validate_model ::
  "json \<Rightarrow> (json \<Rightarrow> string \<Rightarrow> json \<Rightarrow> error + json) \<Rightarrow> (json \<Rightarrow> string option) \<Rightarrow> opts
     \<Rightarrow> error + json"
where
  "build_and_validate_model base_model set_ptr validate opts =
     (case (case opt_m opts of
              None \<Rightarrow> Inr base_model
            | Some model_overrides \<Rightarrow>
                if model_overrides = [] then Inr base_model
                else (case reduce_add model_overrides of
                        Inl e \<Rightarrow> Inl e
                      | Inr pairs \<Rightarrow> set_overrides set_ptr base_model pairs)) of
        Inl e \<Rightarrow> Inl e
      | Inr mdl \<Rightarrow>
          (case validate mdl of
             Some msg \<Rightarrow> Inl (ValidationError msg)
           | None \<Rightarrow> Inr mdl))"

text \<open>
  For the properties: the path that an override addresses, and the plain application of
  a sequence of pointer-sets, in order, stopping at the first that fails.
\<close>

definition resolved_path :: "string \<Rightarrow> string" where
  "resolved_path path =
     (case path of
        [] \<Rightarrow> ''/engine/''
      | c # cs \<Rightarrow> if c = CHR ''/'' then path else ''/engine/'' @ path)"

fun set_all ::
  "(json \<Rightarrow> string \<Rightarrow> json \<Rightarrow> error + json) \<Rightarrow> json \<Rightarrow> (string \<times> json) list \<Rightarrow> error + json"
where
  "set_all set_ptr doc [] = Inr doc"
| "set_all set_ptr doc ((pointer, v) # rest) =
     (case set_ptr doc pointer v of Inl e \<Rightarrow> Inl e | Inr doc' \<Rightarrow> set_all set_ptr doc' rest)"

subsection \<open>\<^verbatim>\<open>main\<close>\<close>

text \<open>
  How a call of \<^verbatim>\<open>main\<close> ends: it returns, it leaves through \<^verbatim>\<open>SystemExit\<close> with an
  exit code after printing a message, or an exception propagates out of it. Logging is
  left out. \<^verbatim>\<open>parse_args\<close> is a parameter: it returns the options, or the exit code and
  message of the \<^verbatim>\<open>SystemExit\<close> it raises. \<open>DEBUG0\<close> is the module's \<^verbatim>\<open>DEBUG\<close> flag when
  \<^verbatim>\<open>main\<close> is entered; \<^verbatim>\<open>traceback.print_exception()\<close>, called without arguments, raises
  a TypeError.
\<close>

datatype outcome = Returned | SystemExit int string | Raised error

definition program_name :: string where
  "program_name = ''fuefit''"

definition indent :: string where
  "indent = replicate (length program_name) (CHR '' '')"

definition on_error :: "bool \<Rightarrow> error \<Rightarrow> outcome" where
  "on_error DEBUG ex =
     (case ex of
        ValueError msg \<Rightarrow>
          if DEBUG then Raised ex
          else SystemExit 3
                 (program_name @ '': '' @ msg @ [CHR 0x0A] @ indent @ ''  for help use --help''
                    @ [CHR 0x0A])
      | ValidationError msg \<Rightarrow>
          if DEBUG then Raised ex
          else SystemExit 4
                 (program_name @ '': Model validation failed due to: '' @ msg @ [CHR 0x0A]
                    @ indent @ ''  for help use --help'' @ [CHR 0x0A])
      | _ \<Rightarrow> Raised ex)"

definition main ::
  "(string list \<Rightarrow> (int \<times> string) + opts) \<Rightarrow> json \<Rightarrow> (json \<Rightarrow> string \<Rightarrow> json \<Rightarrow> error + json)
     \<Rightarrow> (json \<Rightarrow> string option) \<Rightarrow> bool \<Rightarrow> string list \<Rightarrow> outcome"
where
  "main parse_args base_model set_ptr validate DEBUG0 argv =
     (case parse_args argv of
        Inl (code, msg) \<Rightarrow>
          if DEBUG0 then Raised (TypeError ''print_exception() missing required arguments'')
          else SystemExit code msg
      | Inr opts \<Rightarrow>
          (let DEBUG = debug opts in
           case validate_opts opts of
             Inl ex \<Rightarrow> on_error DEBUG ex
           | Inr opts' \<Rightarrow>
               (case build_and_validate_model base_model set_ptr validate opts' of
                  Inl ex \<Rightarrow> on_error DEBUG ex
                | Inr mdl \<Rightarrow> Returned)))"

subsection \<open>Paths of overrides, and the documents of the examples\<close>

text \<open>
  For the properties: the segments of the pointer that an override addresses, and when
  two paths part ways at some segment (neither leads through the other). Then the
  base document of the spec's example, options with a single input file and nothing
  else, two validators, and the options of a run with two formats for three files.
\<close>

fun diverge :: "string list \<Rightarrow> string list \<Rightarrow> bool" where
  "diverge (a # p) (b # q) = (if a = b then diverge p q else True)"
| "diverge p q = False"

definition pointer_parts :: "string \<Rightarrow> string list" where
  "pointer_parts pointer = (case parse_pointer pointer of Inl e \<Rightarrow> [] | Inr parts \<Rightarrow> parts)"

definition override_parts :: "string \<Rightarrow> string list" where
  "override_parts path = pointer_parts (resolved_path path)"

definition example_base :: json where
  "example_base = JObj [(''engine'', JObj [(''rpm_idle'', JNum 700)])]"

definition example_opts :: opts where
  "example_opts = \<lparr>ifile = Some [''engine_fc.csv''], icolumns = None, irenames = None,
     iformat = None, opt_I = None, opt_m = None, debug = False, verbose = 0\<rparr>"

definition accept_all :: "json \<Rightarrow> string option" where
  "accept_all mdl = None"

definition two_formats :: opts where
  "two_formats = \<lparr>ifile = Some [''a.csv'', ''b.csv'', ''c.csv''], icolumns = None,
     irenames = None, iformat = Some [''CSV'', ''TXT''], opt_I = None, opt_m = None,
     debug = False, verbose = 0\<rparr>"

definition reject_all :: "json \<Rightarrow> string option" where
  "reject_all mdl = Some ''fuel is a required property''"

text \<open>The end of both messages that \<^verbatim>\<open>main\<close> prints before it exits.\<close>

definition usage_hint :: string where
  "usage_hint = [CHR 0x0A] @ ''        for help use --help'' @ [CHR 0x0A]"

section \<open>Properties\<close>

subsection \<open>Cardinality of the related options\<close>

lemma n_infiles_pos: "1 \<le> n_infiles opts"
  by (cases "ifile opts") (auto simp: n_infiles_def Suc_le_eq)

lemma validate_rel_opts_result:
  "validate_rel_opts opts rs =
     (case List.find (\<lambda>r. \<not> count_ok opts r) rs of
        None \<Rightarrow> Inr opts
      | Some r \<Rightarrow> Inl (ValueError (mismatch_message r (opt_count opts r) (n_infiles opts))))"
proof (induction rs)
  case Nil
  show ?case by simp
next
  case (Cons r rs)
  have pos: "1 \<le> n_infiles opts" by (rule n_infiles_pos)
  show ?case
  proof (cases "dopts opts r")
    case None
    then show ?thesis using Cons by (simp add: count_ok_def opt_count_def)
  next
    case (Some k)
    then show ?thesis using Cons pos
      by (auto simp: count_ok_def opt_count_def)
  qed
qed



subsection \<open>The matcher on the KEY=VALUE pattern\<close>

lemma keep_None:
  assumes "\<And>c t. P c \<Longrightarrow> k g t = None \<Longrightarrow> k g (c # t) = None"
  shows "k g (dropWhile P s) = None \<Longrightarrow> k g s = None"
  using assms by (induction s) (auto split: if_splits)

lemma rx_star_greedy:
  assumes "\<And>c t. P c \<Longrightarrow> k g t = None \<Longrightarrow> k g (c # t) = None"
  shows "rx_star P k g s = k g (dropWhile P s)"
proof (induction s)
  case Nil
  show ?case by simp
next
  case (Cons c cs)
  show ?case
  proof (cases "P c")
    case False
    then show ?thesis by simp
  next
    case True
    show ?thesis
    proof (cases "k g (dropWhile P cs)")
      case None
      then have "k g cs = None" using keep_None [of P k g cs] assms by blast
      then have "k g (c # cs) = None" using assms True by blast
      then show ?thesis using True Cons None by simp
    next
      case (Some r)
      then show ?thesis using True Cons by simp
    qed
  qed
qed

lemma take_length_dropWhile: "take (length s - length (dropWhile P s)) s = takeWhile P s"
proof -
  have "length s = length (takeWhile P s) + length (dropWhile P s)"
    by (metis length_append takeWhile_dropWhile_id)
  then have "length s - length (dropWhile P s) = length (takeWhile P s)" by simp
  then show ?thesis by (metis append_eq_conv_conj takeWhile_dropWhile_id)
qed

lemma space_not_alpha: "is_space c \<Longrightarrow> \<not> is_alpha c"
  by (auto simp: is_space_def is_alpha_def)
lemma space_not_word: "is_space c \<Longrightarrow> \<not> is_word c"
  by (auto simp: is_space_def is_word_def)
lemma space_not_eq: "is_space c \<Longrightarrow> c \<noteq> CHR ''=''"
  by (auto simp: is_space_def)
lemma word_not_eq: "is_word c \<Longrightarrow> c \<noteq> CHR ''=''"
  by (auto simp: is_word_def)
lemma alpha_word: "is_alpha c \<Longrightarrow> is_word c"
  by (auto simp: is_alpha_def is_word_def Let_def)

lemma group_dot_star_eol:
  "rx_group i (rx_star not_newline) (rx_eol k) g s =
     (if at_eol (dropWhile not_newline s)
      then k (g(i \<mapsto> takeWhile not_newline s)) (dropWhile not_newline s) else None)"
proof -
  let ?K = "\<lambda>g' s'. rx_eol k (g'(i \<mapsto> take (length s - length s') s)) s'"
  have "rx_star not_newline ?K g s = ?K g (dropWhile not_newline s)"
    by (rule rx_star_greedy) (simp add: rx_eol_def at_eol_def not_newline_def)
  then show ?thesis
    by (simp add: rx_group_def rx_eol_def at_eol_def take_length_dropWhile)
qed

lemma value_part:
  "rx_star is_space (rx_group i (rx_star not_newline) (rx_eol k)) g s =
     rx_group i (rx_star not_newline) (rx_eol k) g (dropWhile is_space s)"
  if "\<And>g s. k g s \<noteq> None"
proof (rule rx_star_greedy)
  fix c t
  assume c: "is_space c"
    and n: "rx_group i (rx_star not_newline) (rx_eol k) g t = None"
  have t: "\<not> at_eol (dropWhile not_newline t)"
  proof
    assume "at_eol (dropWhile not_newline t)"
    then show False
      using n that [of "g(i \<mapsto> takeWhile not_newline t)" "dropWhile not_newline t"]
      by (simp add: group_dot_star_eol)
  qed
  show "rx_group i (rx_star not_newline) (rx_eol k) g (c # t) = None"
  proof (cases "c = CHR 0x0A")
    case True
    from t have "t \<noteq> []" by (auto simp: at_eol_def)
    then show ?thesis using True
      by (simp add: group_dot_star_eol not_newline_def at_eol_def)
  next
    case False
    then show ?thesis using t by (simp add: group_dot_star_eol not_newline_def)
  qed
qed


lemma eq_part:
  "rx_star is_space (rx_char (\<lambda>c. c = CHR ''='') k) g s =
     rx_char (\<lambda>c. c = CHR ''='') k g (dropWhile is_space s)"
  by (rule rx_star_greedy) (simp add: space_not_eq)

lemma word_part:
  "rx_star is_word (\<lambda>g' s'. rx_star is_space (rx_char (\<lambda>c. c = CHR ''='') k) (f g' s') s') g s =
     rx_star is_space (rx_char (\<lambda>c. c = CHR ''='') k) (f g (dropWhile is_word s))
       (dropWhile is_word s)"
proof (rule rx_star_greedy)
  fix c t
  assume c: "is_word c"
  then have "dropWhile is_space (c # t) = c # t"
    using space_not_word [of c] by auto
  then show "rx_star is_space (rx_char (\<lambda>c. c = CHR ''='') k) (f g (c # t)) (c # t) = None"
    using c by (simp only: eq_part) (simp add: word_not_eq)
qed

lemma key_part:
  "rx_star is_space (rx_group i (rx_char is_alpha \<circ> rx_star is_word) k) g s =
     rx_group i (rx_char is_alpha \<circ> rx_star is_word) k g (dropWhile is_space s)"
  by (rule rx_star_greedy) (simp add: rx_group_def space_not_alpha)

lemma key_value_match:
  "re_match key_value_regex arg =
     (case dropWhile is_space arg of
        [] \<Rightarrow> None
      | c # cs \<Rightarrow>
          if is_alpha c then
            (case dropWhile is_space (dropWhile is_word cs) of
               [] \<Rightarrow> None
             | e # r \<Rightarrow>
                 if e = CHR ''='' \<and> at_eol (dropWhile not_newline (dropWhile is_space r))
                 then Some ((\<lambda>i. None)(0 \<mapsto> c # takeWhile is_word cs,
                        1 \<mapsto> takeWhile not_newline (dropWhile is_space r)))
                 else None)
          else None)"
proof -
  let ?k0 = "\<lambda>(g::groups) (s'::string). Some g"
  let ?V = "rx_star is_space (rx_group 1 (rx_star not_newline) (rx_eol ?k0))"
  let ?E = "rx_star is_space (rx_char (\<lambda>c. c = CHR ''='') ?V)"
  have V: "?V g s = (if at_eol (dropWhile not_newline (dropWhile is_space s))
      then Some (g(1 \<mapsto> takeWhile not_newline (dropWhile is_space s))) else None)" for g s
    by (simp add: value_part group_dot_star_eol)
  have E: "?E g s = (case dropWhile is_space s of [] \<Rightarrow> None
      | e # r \<Rightarrow> if e = CHR ''='' then ?V g r else None)" for g s
    by (cases "dropWhile is_space s") (simp_all only: eq_part rx_char.simps list.case)
  have K: "rx_group 0 (rx_char is_alpha \<circ> rx_star is_word) ?E g s =
      (case s of [] \<Rightarrow> None
       | c # cs \<Rightarrow> if is_alpha c
           then ?E (g(0 \<mapsto> c # takeWhile is_word cs)) (dropWhile is_word cs) else None)" for g s
  proof (cases s)
    case Nil
    then show ?thesis by (simp add: rx_group_def)
  next
    case (Cons c cs)
    have "take (length cs - length (dropWhile is_word cs)) cs = takeWhile is_word cs"
      by (rule take_length_dropWhile)
    moreover have "length (dropWhile is_word cs) \<le> length cs"
      by (rule length_dropWhile_le)
    ultimately have tk: "take (Suc (length cs) - length (dropWhile is_word cs)) (c # cs)
        = c # takeWhile is_word cs"
      by (simp add: Suc_diff_le)
    have W: "rx_star is_word
          (\<lambda>g' s'. ?E (g'(0 \<mapsto> take (Suc (length cs) - length s') (c # cs))) s') g cs
        = ?E (g(0 \<mapsto> take (Suc (length cs) - length (dropWhile is_word cs)) (c # cs)))
            (dropWhile is_word cs)"
      by (rule word_part [where f = "\<lambda>g' s'. g'(0 \<mapsto> take (Suc (length cs) - length s') (c # cs))"])
    show ?thesis using Cons tk W
      by (simp add: rx_group_def)
  qed
  have R: "re_match key_value_regex arg =
      rx_group 0 (rx_char is_alpha \<circ> rx_star is_word) ?E (\<lambda>i. None) (dropWhile is_space arg)"
    by (simp add: re_match_def key_value_regex_def key_part)
  show ?thesis
    unfolding R K E V by (simp split: list.splits del: dropWhile_eq_Nil_conv)
qed


lemma dropWhile_skip:
  "list_all P xs \<Longrightarrow> (case ys of [] \<Rightarrow> True | y # _ \<Rightarrow> \<not> P y) \<Longrightarrow> dropWhile P (xs @ ys) = ys"
  by (induction xs) (auto split: list.splits)

lemma takeWhile_skip:
  "list_all P xs \<Longrightarrow> (case ys of [] \<Rightarrow> True | y # _ \<Rightarrow> \<not> P y) \<Longrightarrow> takeWhile P (xs @ ys) = xs"
  by (induction xs) (auto split: list.splits)

lemma newline_space: "is_space (CHR 0x0A)"
  by (simp add: is_space_def)

lemma key_value_pair_result:
  "key_value_pair arg =
     (case re_match key_value_regex arg of
        None \<Rightarrow> Inl (ArgumentTypeError (''Not a KEY=VALUE syntax: '' @ arg))
      | Some g \<Rightarrow> Inr (the (g 0), the (g 1)))"
  by (simp add: key_value_pair_def key_value_match split: list.splits)

lemma key_value_accepts:
  assumes "kv_form ws1 k ws2 ws3 v nl"
  shows "key_value_pair (ws1 @ k @ ws2 @ ''='' @ ws3 @ v @ nl) = Inr (k, v)"
proof -
  from assms obtain c cs where k: "k = c # cs" "is_alpha c" "list_all is_word cs"
    by (auto simp: kv_form_def is_key_def split: list.splits)
  from assms have ws: "list_all is_space ws1" "list_all is_space ws2" "list_all is_space ws3"
    and v: "list_all not_newline v" "case v of [] \<Rightarrow> True | c # _ \<Rightarrow> \<not> is_space c"
    and nl: "nl = [] \<or> nl = [CHR 0x0A]"
    by (auto simp: kv_form_def is_value_def at_eol_def)
  let ?r = "ws3 @ v @ nl"
  let ?e = "CHR ''='' # ?r"
  have 1: "dropWhile is_space (ws1 @ c # cs @ ws2 @ ?e) = c # cs @ ws2 @ ?e"
    using dropWhile_skip [OF ws(1), of "c # cs @ ws2 @ ?e"] k space_not_alpha [of c]
    by auto
  have hd2: "case ws2 @ ?e of [] \<Rightarrow> True | y # _ \<Rightarrow> \<not> is_word y"
    using ws(2) space_not_word word_not_eq by (cases ws2) auto
  have 2: "dropWhile is_word (cs @ ws2 @ ?e) = ws2 @ ?e"
    and 3: "takeWhile is_word (cs @ ws2 @ ?e) = cs"
    using dropWhile_skip [OF k(3) hd2] takeWhile_skip [OF k(3) hd2] by simp_all
  have 4: "dropWhile is_space (ws2 @ ?e) = ?e"
    using dropWhile_skip [OF ws(2), of ?e] space_not_eq by auto
  have 5: "dropWhile is_space ?r = (if v = [] then [] else v @ nl)"
  proof (cases v)
    case Nil
    then show ?thesis using nl ws(3) newline_space
      by (auto simp: list_all_iff dropWhile_append)
  next
    case (Cons y ys)
    then show ?thesis using dropWhile_skip [OF ws(3), of "v @ nl"] v(2) by simp
  qed
  have nlh: "case nl of [] \<Rightarrow> True | y # _ \<Rightarrow> \<not> not_newline y"
    using nl by (auto simp: not_newline_def)
  have 6: "takeWhile not_newline (v @ nl) = v" "dropWhile not_newline (v @ nl) = nl"
    using takeWhile_skip [OF v(1) nlh] dropWhile_skip [OF v(1) nlh] by simp_all
  have m: "re_match key_value_regex (ws1 @ c # cs @ ws2 @ ?e) =
      Some ((\<lambda>i. None)(0 \<mapsto> c # cs, 1 \<mapsto> v))"
    unfolding key_value_match 1 list.case 2 3 4 5 using k(2) nl 6
    by (cases "v = []") (simp_all add: at_eol_def)
  show ?thesis
    unfolding key_value_pair_result k(1) using m by simp
qed

lemma key_value_decompose:
  assumes "key_value_pair arg = Inr (k, v)"
  shows "\<exists>ws1 ws2 ws3 nl. arg = ws1 @ k @ ws2 @ ''='' @ ws3 @ v @ nl \<and> kv_form ws1 k ws2 ws3 v nl"
proof -
  from assms obtain c cs r where
    a: "dropWhile is_space arg = c # cs" and c: "is_alpha c"
    and e: "dropWhile is_space (dropWhile is_word cs) = CHR ''='' # r"
    and eol: "at_eol (dropWhile not_newline (dropWhile is_space r))"
    and k: "k = c # takeWhile is_word cs"
    and v: "v = takeWhile not_newline (dropWhile is_space r)"
    by (auto simp: key_value_pair_result key_value_match split: list.splits if_splits
        simp del: dropWhile_eq_Nil_conv)
  let ?ws1 = "takeWhile is_space arg" and ?ws2 = "takeWhile is_space (dropWhile is_word cs)"
  let ?ws3 = "takeWhile is_space r" and ?nl = "dropWhile not_newline (dropWhile is_space r)"
  have "arg = ?ws1 @ c # cs" using a by (metis takeWhile_dropWhile_id)
  moreover have "cs = takeWhile is_word cs @ ?ws2 @ CHR ''='' # r"
    using e by (metis takeWhile_dropWhile_id)
  moreover have "r = ?ws3 @ v @ ?nl" unfolding v by simp
  ultimately have arg: "arg = ?ws1 @ k @ ?ws2 @ ''='' @ ?ws3 @ v @ ?nl"
    unfolding k by (metis append_Cons append_Nil append_assoc)
  have sp: "list_all P (takeWhile P xs)" for P :: "char \<Rightarrow> bool" and xs
    by (induction xs) auto
  have hv: "case v of [] \<Rightarrow> True | y # _ \<Rightarrow> \<not> is_space y"
  proof (cases "dropWhile is_space r")
    case Nil
    then show ?thesis unfolding v by (simp del: dropWhile_eq_Nil_conv)
  next
    case (Cons y ys)
    then have "\<not> is_space y" by (metis hd_dropWhile list.sel(1) list.distinct(1))
    then show ?thesis unfolding v using Cons by simp
  qed
  have "kv_form ?ws1 k ?ws2 ?ws3 v ?nl"
    using c eol hv sp unfolding kv_form_def is_key_def is_value_def k v by simp
  with arg show ?thesis by blast
qed

lemma key_value_rejects:
  "(\<forall>k v. key_value_pair arg \<noteq> Inr (k, v)) \<Longrightarrow>
     key_value_pair arg = Inl (ArgumentTypeError (''Not a KEY=VALUE syntax: '' @ arg))"
  by (cases "re_match key_value_regex arg") (simp_all add: key_value_pair_result)


subsection \<open>What \<^verbatim>\<open>key_value_pair\<close> accepts and returns\<close>

lemma key_value_needs_eq:
  assumes "key_value_pair arg = Inr (k, v)"
  shows "CHR ''='' \<in> set arg"
proof -
  from key_value_decompose [OF assms] obtain ws1 ws2 ws3 nl
    where "arg = ws1 @ k @ ws2 @ ''='' @ ws3 @ v @ nl" by blast
  then have "set arg = set (ws1 @ k @ ws2 @ ''='' @ ws3 @ v @ nl)" by (rule arg_cong)
  then show ?thesis by simp
qed

lemma key_value_needs_letter:
  assumes "key_value_pair arg = Inr (k, v)"
  shows "\<exists>c cs. dropWhile is_space arg = c # cs \<and> is_alpha c"
proof (cases "dropWhile is_space arg")
  case Nil
  then have "re_match key_value_regex arg = None"
    unfolding key_value_match by (simp only: list.case)
  then show ?thesis using assms by (simp add: key_value_pair_result)
next
  case (Cons c cs)
  show ?thesis
  proof (cases "is_alpha c")
    case True
    then show ?thesis using Cons by blast
  next
    case False
    then have "re_match key_value_regex arg = None"
      unfolding key_value_match Cons by (simp only: list.case if_False)
    then show ?thesis using assms by (simp add: key_value_pair_result)
  qed
qed

text \<open>
  C6, as the code has it. \<^verbatim>\<open>key_value_pair\<close> returns \<open>(k, v)\<close> for every text of the form
  whitespace, key, whitespace, \<^verbatim>\<open>=\<close>, whitespace, value, optional final newline, where
  the key is a letter followed by word characters and the value (possibly empty,
  possibly with further \<^verbatim>\<open>=\<close>) has no newline and starts where the whitespace after
  the \<^verbatim>\<open>=\<close> ends. Every text that is not of this form is rejected with the
  ArgumentTypeError that carries the text; so is in particular every text without
  \<^verbatim>\<open>=\<close> and every text whose first non-blank character is not a letter.
\<close>

theorem key_value_pair_grammar:
  "(kv_form ws1 k ws2 ws3 v nl \<longrightarrow>
      key_value_pair (ws1 @ k @ ws2 @ ''='' @ ws3 @ v @ nl) = Inr (k, v)) \<and>
   ((\<nexists>ws1 k ws2 ws3 v nl.
       arg = ws1 @ k @ ws2 @ ''='' @ ws3 @ v @ nl \<and> kv_form ws1 k ws2 ws3 v nl) \<longrightarrow>
      key_value_pair arg = Inl (ArgumentTypeError (''Not a KEY=VALUE syntax: '' @ arg))) \<and>
   (CHR ''='' \<notin> set arg \<longrightarrow>
      key_value_pair arg = Inl (ArgumentTypeError (''Not a KEY=VALUE syntax: '' @ arg))) \<and>
   ((case dropWhile is_space arg of [] \<Rightarrow> True | c # _ \<Rightarrow> \<not> is_alpha c) \<longrightarrow>
      key_value_pair arg = Inl (ArgumentTypeError (''Not a KEY=VALUE syntax: '' @ arg)))"
proof (intro conjI impI)
  assume "kv_form ws1 k ws2 ws3 v nl"
  then show "key_value_pair (ws1 @ k @ ws2 @ ''='' @ ws3 @ v @ nl) = Inr (k, v)"
    by (rule key_value_accepts)
next
  assume n: "\<nexists>ws1 k ws2 ws3 v nl.
      arg = ws1 @ k @ ws2 @ ''='' @ ws3 @ v @ nl \<and> kv_form ws1 k ws2 ws3 v nl"
  have "key_value_pair arg \<noteq> Inr (k, v)" for k v
  proof
    assume "key_value_pair arg = Inr (k, v)"
    from key_value_decompose [OF this] obtain ws1 ws2 ws3 nl
      where p: "arg = ws1 @ k @ ws2 @ ''='' @ ws3 @ v @ nl \<and> kv_form ws1 k ws2 ws3 v nl"
      by (elim exE)
    have "\<exists>ws1 k ws2 ws3 v nl.
        arg = ws1 @ k @ ws2 @ ''='' @ ws3 @ v @ nl \<and> kv_form ws1 k ws2 ws3 v nl"
      apply (rule exI [where x = ws1])
      apply (rule exI [where x = k])
      apply (rule exI [where x = ws2])
      apply (rule exI [where x = ws3])
      apply (rule exI [where x = v])
      apply (rule exI [where x = nl])
      apply (rule p)
      done
    with n show False by (rule notE)
  qed
  then have "\<forall>k v. key_value_pair arg \<noteq> Inr (k, v)" by (intro allI)
  then show "key_value_pair arg = Inl (ArgumentTypeError (''Not a KEY=VALUE syntax: '' @ arg))"
    by (rule key_value_rejects)
next
  assume n: "CHR ''='' \<notin> set arg"
  have "key_value_pair arg \<noteq> Inr (k, v)" for k v
    using key_value_needs_eq [of arg k v] n by (intro notI) (rule notE)
  then have "\<forall>k v. key_value_pair arg \<noteq> Inr (k, v)" by (intro allI)
  then show "key_value_pair arg = Inl (ArgumentTypeError (''Not a KEY=VALUE syntax: '' @ arg))"
    by (rule key_value_rejects)
next
  assume n: "case dropWhile is_space arg of [] \<Rightarrow> True | c # _ \<Rightarrow> \<not> is_alpha c"
  have "key_value_pair arg \<noteq> Inr (k, v)" for k v
  proof
    assume "key_value_pair arg = Inr (k, v)"
    from key_value_needs_letter [OF this] obtain c cs
      where "dropWhile is_space arg = c # cs" "is_alpha c" by (elim exE conjE)
    with n show False by simp
  qed
  then have "\<forall>k v. key_value_pair arg \<noteq> Inr (k, v)" by (intro allI)
  then show "key_value_pair arg = Inl (ArgumentTypeError (''Not a KEY=VALUE syntax: '' @ arg))"
    by (rule key_value_rejects)
qed

theorem key_value_pair_grammar_witness:
  "key_value_pair '' rpm_idle = 850=x'' = Inr (''rpm_idle'', ''850=x'') \<and>
   key_value_pair ''a='' = Inr (''a'', '''') \<and>
   key_value_pair ''rpm_idle'' = Inl (ArgumentTypeError ''Not a KEY=VALUE syntax: rpm_idle'') \<and>
   key_value_pair ''1a=3'' = Inl (ArgumentTypeError ''Not a KEY=VALUE syntax: 1a=3'')"
proof -
  have f1: "kv_form '' '' ''rpm_idle'' '' '' '' '' ''850=x'' ''''"
    by (simp add: kv_form_def is_key_def is_value_def at_eol_def is_space_def is_alpha_def
        is_word_def not_newline_def)
  have f2: "kv_form '''' ''a'' '''' '''' '''' ''''"
    by (simp add: kv_form_def is_key_def is_value_def at_eol_def is_alpha_def)
  have n3: "CHR ''='' \<notin> set ''rpm_idle''" by simp
  have n3': "\<nexists>ws1 k ws2 ws3 v nl.
       ''rpm_idle'' = ws1 @ k @ ws2 @ ''='' @ ws3 @ v @ nl \<and> kv_form ws1 k ws2 ws3 v nl"
  proof
    assume "\<exists>ws1 k ws2 ws3 v nl.
       ''rpm_idle'' = ws1 @ k @ ws2 @ ''='' @ ws3 @ v @ nl \<and> kv_form ws1 k ws2 ws3 v nl"
    then obtain ws1 k ws2 ws3 v nl where "''rpm_idle'' = ws1 @ k @ ws2 @ ''='' @ ws3 @ v @ nl"
      by blast
    then have "set ''rpm_idle'' = set (ws1 @ k @ ws2 @ ''='' @ ws3 @ v @ nl)" by simp
    then have "CHR ''='' \<in> set ''rpm_idle''" by (simp only: set_append) simp
    then show False by simp
  qed
  have n4: "case dropWhile is_space ''1a=3'' of [] \<Rightarrow> True | c # _ \<Rightarrow> \<not> is_alpha c"
    by (simp add: is_space_def is_alpha_def)
  from key_value_pair_grammar [of "'' ''" "''rpm_idle''" "'' ''" "'' ''" "''850=x''" "''''" "''rpm_idle''"]
    f1 n3 n3'
  have a: "key_value_pair ('' '' @ ''rpm_idle'' @ '' '' @ ''='' @ '' '' @ ''850=x'' @ '''')
        = Inr (''rpm_idle'', ''850=x'')"
    and c: "key_value_pair ''rpm_idle'' = Inl (ArgumentTypeError (''Not a KEY=VALUE syntax: '' @ ''rpm_idle''))"
    by blast+
  from key_value_pair_grammar [of "''''" "''a''" "''''" "''''" "''''" "''''" "''1a=3''"] f2 n4
  have b: "key_value_pair ('''' @ ''a'' @ '''' @ ''='' @ '''' @ '''' @ '''') = Inr (''a'', '''')"
    and d: "key_value_pair ''1a=3'' = Inl (ArgumentTypeError (''Not a KEY=VALUE syntax: '' @ ''1a=3''))"
    by blast+
  from a b c d show ?thesis by simp
qed

text \<open>
  The value is not everything after the first \<^verbatim>\<open>=\<close>: the whitespace that follows the
  \<^verbatim>\<open>=\<close> is dropped.
\<close>

theorem key_value_pair_value_counterexample:
  "key_value_pair ''a= b'' = Inr (''a'', ''b'') \<and> after_first_eq ''a= b'' = '' b''"
  by (simp add: key_value_pair_result key_value_match after_first_eq_def at_eol_def
      is_space_def is_alpha_def is_word_def not_newline_def)

text \<open>
  Beyond ASCII: an accented letter is a word character and may follow the first
  letter of a key, but cannot begin it; a no-break space after the \<^verbatim>\<open>=\<close> is whitespace
  and is dropped.
\<close>

lemma key_value_pair_latin1:
  "key_value_pair [CHR ''a'', CHR 0xE9, CHR ''='', CHR ''1''] = Inr ([CHR ''a'', CHR 0xE9], ''1'') \<and>
   key_value_pair [CHR ''a'', CHR ''='', CHR 0xA0, CHR ''b''] = Inr (''a'', ''b'') \<and>
   key_value_pair [CHR 0xE9, CHR ''='', CHR ''1''] =
     Inl (ArgumentTypeError (''Not a KEY=VALUE syntax: '' @ [CHR 0xE9, CHR ''='', CHR ''1'']))"
  by (simp add: key_value_pair_result key_value_match at_eol_def
      is_space_def is_alpha_def is_word_def not_newline_def)

text \<open>
  C7, as the code has it. An accepted text is \<open>ws1 @ k @ ws2 @ ''='' @ ws3 @ v @ nl\<close>,
  where \<open>k\<close> is the returned key (a letter followed by word characters), \<open>v\<close> the
  returned value (without a newline, not beginning with whitespace), \<open>ws1\<close>, \<open>ws2\<close> and
  \<open>ws3\<close> the runs of whitespace before the key and on both sides of the \<^verbatim>\<open>=\<close>, and \<open>nl\<close>
  nothing or a final newline: \<open>k @ ''='' @ v\<close> is the text without these runs and that
  newline, and the value keeps its trailing whitespace. No other key and value fit the
  text in this way, and parsing \<open>k @ ''='' @ v\<close> again returns the same pair.
\<close>

theorem key_value_pair_roundtrip:
  "key_value_pair arg = Inr (k, v) \<Longrightarrow>
     (\<exists>ws1 ws2 ws3 nl. kv_form ws1 k ws2 ws3 v nl \<and>
        arg = ws1 @ k @ ws2 @ ''='' @ ws3 @ v @ nl) \<and>
     (\<forall>ws1 k' ws2 ws3 v' nl.
        kv_form ws1 k' ws2 ws3 v' nl \<and> arg = ws1 @ k' @ ws2 @ ''='' @ ws3 @ v' @ nl \<longrightarrow>
          k' = k \<and> v' = v) \<and>
     key_value_pair (k @ ''='' @ v) = Inr (k, v)"
proof -
  assume a: "key_value_pair arg = Inr (k, v)"
  from key_value_decompose [OF a] obtain ws1 ws2 ws3 nl where
    d: "arg = ws1 @ k @ ws2 @ ''='' @ ws3 @ v @ nl \<and> kv_form ws1 k ws2 ws3 v nl"
    by (elim exE)
  then have arg: "arg = ws1 @ k @ ws2 @ ''='' @ ws3 @ v @ nl"
    and f: "kv_form ws1 k ws2 ws3 v nl"
    by (rule conjunct1, rule conjunct2)
  have 1: "\<exists>ws1 ws2 ws3 nl. kv_form ws1 k ws2 ws3 v nl \<and>
        arg = ws1 @ k @ ws2 @ ''='' @ ws3 @ v @ nl"
    apply (rule exI [where x = ws1])
    apply (rule exI [where x = ws2])
    apply (rule exI [where x = ws3])
    apply (rule exI [where x = nl])
    apply (rule conjI [OF f arg])
    done
  have 2: "\<forall>ws1 k' ws2 ws3 v' nl.
        kv_form ws1 k' ws2 ws3 v' nl \<and> arg = ws1 @ k' @ ws2 @ ''='' @ ws3 @ v' @ nl \<longrightarrow>
          k' = k \<and> v' = v"
  proof (intro allI impI)
    fix ws1 k' ws2 ws3 v' nl
    assume h: "kv_form ws1 k' ws2 ws3 v' nl \<and> arg = ws1 @ k' @ ws2 @ ''='' @ ws3 @ v' @ nl"
    from key_value_accepts [OF conjunct1 [OF h]]
    have "key_value_pair arg = Inr (k', v')"
      by (simp only: conjunct2 [OF h])
    with a show "k' = k \<and> v' = v" by simp
  qed
  from f have "kv_form [] k [] [] v []"
    by (simp add: kv_form_def at_eol_def)
  then have "key_value_pair ([] @ k @ [] @ ''='' @ [] @ v @ []) = Inr (k, v)"
    by (rule key_value_accepts)
  then have 3: "key_value_pair (k @ ''='' @ v) = Inr (k, v)" by simp
  show ?thesis by (rule conjI [OF 1 conjI [OF 2 3]])
qed

theorem key_value_pair_roundtrip_witness:
  "key_value_pair ''a = b '' = Inr (''a'', ''b '') \<and>
   (\<exists>ws1 ws2 ws3 nl. kv_form ws1 ''a'' ws2 ws3 ''b '' nl \<and>
        ''a = b '' = ws1 @ ''a'' @ ws2 @ ''='' @ ws3 @ ''b '' @ nl) \<and>
   key_value_pair ''a=b '' = Inr (''a'', ''b '')"
proof -
  have p: "key_value_pair ''a = b '' = Inr (''a'', ''b '')"
    by (simp add: key_value_pair_result key_value_match at_eol_def
      is_space_def is_alpha_def is_word_def not_newline_def)
  note r = key_value_pair_roundtrip [OF p]
  have q: "key_value_pair ''a=b '' = Inr (''a'', ''b '')"
    using conjunct2 [OF conjunct2 [OF r]] by simp
  show ?thesis
    by (rule conjI [OF p conjI [OF conjunct1 [OF r] q]])
qed

text \<open>
  Trimming the surrounding whitespace of the text does not give \<open>k @ ''='' @ v\<close>: the
  blanks around the \<^verbatim>\<open>=\<close> go, the blanks after the value stay.
\<close>

theorem key_value_pair_roundtrip_counterexample:
  "key_value_pair ''a = b '' = Inr (''a'', ''b '') \<and> strip ''a = b '' = ''a = b'' \<and>
   ''a'' @ ''='' @ ''b '' \<noteq> strip ''a = b ''"
  by (simp add: key_value_pair_result key_value_match at_eol_def strip_def
      is_space_def is_alpha_def is_word_def not_newline_def)

subsection \<open>What \<^verbatim>\<open>column_specifier\<close> returns\<close>

lemma keeps_name_char: "keeps_name k \<Longrightarrow> keeps_name (rx_char P k)"
  unfolding keeps_name_def
proof (intro allI impI)
  fix g s r
  assume k: "\<forall>g s r. k g s = Some r \<longrightarrow> r 0 = g 0" and m: "rx_char P k g s = Some r"
  then show "r 0 = g 0" by (cases s) (auto split: if_splits)
qed

lemma rx_star_some: "rx_star P k g s = Some r \<Longrightarrow> \<exists>s'. length s' \<le> length s \<and> k g s' = Some r"
proof (induction s)
  case Nil
  then show ?case by auto
next
  case (Cons c cs)
  show ?case
  proof (cases "P c \<and> rx_star P k g cs \<noteq> None")
    case True
    then have "rx_star P k g cs = Some r" using Cons.prems by auto
    from Cons.IH [OF this] obtain s' where "length s' \<le> length cs" "k g s' = Some r" by blast
    then have "length s' \<le> length (c # cs) \<and> k g s' = Some r" by simp
    then show ?thesis by (rule exI)
  next
    case False
    then have "k g (c # cs) = Some r" using Cons.prems by (auto split: if_splits)
    then have "length (c # cs) \<le> length (c # cs) \<and> k g (c # cs) = Some r" by simp
    then show ?thesis by (rule exI)
  qed
qed

lemma keeps_nameD: "keeps_name k \<Longrightarrow> k g s = Some r \<Longrightarrow> r 0 = g 0"
  unfolding keeps_name_def by (elim allE impE) assumption+

lemma keeps_nameI: "(\<And>g s r. k g s = Some r \<Longrightarrow> r 0 = g 0) \<Longrightarrow> keeps_name k"
  unfolding keeps_name_def by (intro allI impI)

lemma keeps_name_star:
  assumes "keeps_name k"
  shows "keeps_name (rx_star P k)"
proof (rule keeps_nameI)
  fix g s r
  assume "rx_star P k g s = Some r"
  from rx_star_some [OF this] obtain s' where "k g s' = Some r" by (elim exE conjE)
  then show "r 0 = g 0" by (rule keeps_nameD [OF assms])
qed

lemma keeps_name_eol: "keeps_name k \<Longrightarrow> keeps_name (rx_eol k)"
  unfolding keeps_name_def rx_eol_def by (auto split: if_splits)

lemma keeps_name_group:
  assumes "i \<noteq> 0" and "\<And>k. keeps_name k \<Longrightarrow> keeps_name (r k)" and "keeps_name k"
  shows "keeps_name (rx_group i r k)"
proof (rule keeps_nameI)
  fix g s res
  assume m: "rx_group i r k g s = Some res"
  have "keeps_name (\<lambda>g' s'. k (g'(i \<mapsto> take (length s - length s') s)) s')"
  proof (rule keeps_nameI)
    fix g' s' r'
    assume "k (g'(i \<mapsto> take (length s - length s') s)) s' = Some r'"
    then have "r' 0 = (g'(i \<mapsto> take (length s - length s') s)) 0"
      by (rule keeps_nameD [OF assms(3)])
    then show "r' 0 = g' 0" using assms(1) by simp
  qed
  from assms(2) [OF this] m show "res 0 = g 0"
    unfolding rx_group_def by (rule keeps_nameD)
qed

lemma keeps_name_opt:
  "keeps_name (r k) \<Longrightarrow> keeps_name k \<Longrightarrow> keeps_name (rx_opt r k)"
  unfolding keeps_name_def rx_opt_def by (auto split: option.splits)

lemma keeps_name_units:
  assumes "keeps_name k"
  shows "keeps_name (rx_group 1 (rx_char (\<lambda>c. c = CHR ''('')
                      \<circ> rx_group 2 (rx_plus (\<lambda>c. c \<noteq> CHR '')''))
                      \<circ> rx_char (\<lambda>c. c = CHR '')'')) k)"
proof (rule keeps_name_group [OF _ _ assms])
  show "(1::nat) \<noteq> 0" by simp
next
  fix k' :: cont
  assume k': "keeps_name k'"
  have "keeps_name (rx_group 2 (rx_plus (\<lambda>c. c \<noteq> CHR '')'')) (rx_char (\<lambda>c. c = CHR '')'') k'))"
  proof (rule keeps_name_group)
    show "(2::nat) \<noteq> 0" by simp
    show "keeps_name (rx_plus (\<lambda>c. c \<noteq> CHR '')'') k'')" if "keeps_name k''" for k''
      unfolding rx_plus_def using that by (intro keeps_name_char keeps_name_star)
    show "keeps_name (rx_char (\<lambda>c. c = CHR '')'') k')" using k' by (rule keeps_name_char)
  qed
  then show "keeps_name ((rx_char (\<lambda>c. c = CHR ''('')
                      \<circ> rx_group 2 (rx_plus (\<lambda>c. c \<noteq> CHR '')''))
                      \<circ> rx_char (\<lambda>c. c = CHR '')'')) k')"
    by (simp add: keeps_name_char)
qed

lemma keeps_name_tail:
  "keeps_name ((rx_star is_space
       \<circ> rx_opt (rx_group 1 (rx_char (\<lambda>c. c = CHR ''('')
                      \<circ> rx_group 2 (rx_plus (\<lambda>c. c \<noteq> CHR '')''))
                      \<circ> rx_char (\<lambda>c. c = CHR '')'')))
       \<circ> rx_star is_space \<circ> rx_eol) (\<lambda>g s'. Some g))"
proof -
  let ?U = "rx_group 1 (rx_char (\<lambda>c. c = CHR ''('')
                      \<circ> rx_group 2 (rx_plus (\<lambda>c. c \<noteq> CHR '')''))
                      \<circ> rx_char (\<lambda>c. c = CHR '')''))"
  let ?K = "rx_star is_space (rx_eol (\<lambda>g s'. Some g))"
  have 0: "keeps_name (\<lambda>(g::groups) (s'::string). Some g)"
    by (rule keeps_nameI) simp
  have 1: "keeps_name ?K"
    by (rule keeps_name_star [OF keeps_name_eol [OF 0]])
  have 2: "keeps_name (?U ?K)"
    by (rule keeps_name_units [OF 1])
  have 3: "keeps_name (rx_opt ?U ?K)"
    by (rule keeps_name_opt [where r = ?U and k = ?K, OF 2 1])
  have 4: "keeps_name (rx_star is_space (rx_opt ?U ?K))"
    by (rule keeps_name_star [OF 3])
  show ?thesis
    using 4 by (simp add: comp_def)
qed

lemma rx_group_plus_some:
  assumes "rx_group i (rx_plus P) k g s = Some r"
  shows "\<exists>s' t. t \<noteq> [] \<and> k (g(i \<mapsto> t)) s' = Some r"
proof (cases s)
  case Nil
  with assms show ?thesis by (simp add: rx_group_def rx_plus_def)
next
  case (Cons c cs)
  let ?K = "\<lambda>g' s'. k (g'(i \<mapsto> take (length (c # cs) - length s') (c # cs))) s'"
  from assms Cons have "rx_char P (rx_star P ?K) g (c # cs) = Some r"
    by (simp only: rx_group_def rx_plus_def)
  then have "rx_star P ?K g cs = Some r"
    by (simp split: if_splits)
  from rx_star_some [OF this] obtain s' where l: "length s' \<le> length cs"
    and k: "k (g(i \<mapsto> take (length (c # cs) - length s') (c # cs))) s' = Some r"
    by (elim exE conjE)
  have "length (c # cs) - length s' = Suc (length cs - length s')"
    using l by simp
  then have "take (length (c # cs) - length s') (c # cs) \<noteq> []"
    by simp
  with k show ?thesis by blast
qed

lemma column_specifier_name_nonempty:
  assumes "column_specifier arg = Inr (name, paren, units)"
  shows "name \<noteq> []"
proof -
  define T where "T = (rx_star is_space
       \<circ> rx_opt (rx_group 1 (rx_char (\<lambda>c. c = CHR ''('')
                      \<circ> rx_group 2 (rx_plus (\<lambda>c. c \<noteq> CHR '')''))
                      \<circ> rx_char (\<lambda>c. c = CHR '')'')))
       \<circ> rx_star is_space \<circ> rx_eol) (\<lambda>(g::groups) (s'::string). Some g)"
  have T: "keeps_name T" unfolding T_def by (rule keeps_name_tail)
  from assms obtain g where m: "re_match column_specifier_regex arg = Some g"
    and n: "g 0 = Some name"
    by (cases "re_match column_specifier_regex arg")
       (auto simp: column_specifier_def split: option.splits)
  have "re_match column_specifier_regex arg =
      rx_star is_space (rx_group 0 (rx_plus (\<lambda>c. c \<noteq> CHR ''('')) T) (\<lambda>i. None) arg"
    unfolding T_def re_match_def column_specifier_regex_def comp_apply ..
  with m have "rx_star is_space (rx_group 0 (rx_plus (\<lambda>c. c \<noteq> CHR ''('')) T) (\<lambda>i. None) arg
      = Some g" by (simp only:)
  from rx_star_some [OF this] obtain s where
    "rx_group 0 (rx_plus (\<lambda>c. c \<noteq> CHR ''('')) T (\<lambda>i. None) s = Some g"
    by (elim exE conjE)
  from rx_group_plus_some [OF this] obtain s' t where t: "t \<noteq> []"
    and k: "T ((\<lambda>i. None)(0 \<mapsto> t)) s' = Some g"
    by (elim exE conjE)
  from keeps_nameD [OF T k] have "g 0 = Some t" by simp
  with n t show ?thesis by simp
qed


text \<open>
  C8. The name group \<^verbatim>\<open>[^(]+\<close> is greedy and takes blanks too, so the \<^verbatim>\<open>\s*\<close> that
  follows it never has anything left to drop: the name of \<^verbatim>\<open>Pnorm (kW)\<close> is returned with
  its trailing blank, and \<^verbatim>\<open>CM\<close> followed by a blank does not parse as \<^verbatim>\<open>CM\<close> does. The
  result is the triple of all three groups. Leading blanks are dropped, and the name
  is never empty (lemma \<open>column_specifier_name_nonempty\<close>).
\<close>

theorem column_specifier_keeps_whitespace:
  "column_specifier ''Pnorm (kW)'' = Inr (''Pnorm '', Some ''(kW)'', Some ''kW'') \<and>
   column_specifier ''CM'' = Inr (''CM'', None, None) \<and>
   column_specifier '' CM'' = Inr (''CM'', None, None) \<and>
   column_specifier ''CM '' = Inr (''CM '', None, None)"
  by (simp add: column_specifier_def re_match_def column_specifier_regex_def rx_group_def
      rx_eol_def rx_opt_def rx_plus_def at_eol_def is_space_def)

subsection \<open>The pointer-set on a nested mapping\<close>

lemma map_of_dict_set: "map_of (dict_set k v kvs) = (map_of kvs)(k \<mapsto> v)"
  by (induction kvs) (auto simp: fun_eq_iff)

lemma dict_set_twice: "dict_set k v2 (dict_set k v1 kvs) = dict_set k v2 kvs"
  by (induction kvs) auto

lemma dict_set_absent: "map_of kvs k = None \<Longrightarrow> dict_set k v kvs = kvs @ [(k, v)]"
  by (induction kvs) (auto split: if_splits)

lemma set_parts_last: "set_parts (JObj kvs) [part] v = Inr (JObj (dict_set part v kvs))"
  by simp

lemma set_parts_step:
  "rest \<noteq> [] \<Longrightarrow>
   set_parts (JObj kvs) (part # rest) v =
     (case map_of kvs part of
        Some (JObj sub) \<Rightarrow>
          (case set_parts (JObj sub) rest v of
             Inl e \<Rightarrow> Inl e
           | Inr sub' \<Rightarrow> Inr (JObj (dict_set part sub' kvs)))
      | _ \<Rightarrow> Inl (PathResolutionError part))"
  by (cases rest) auto

lemma set_parts_scalar:
  "(\<And>kvs. doc \<noteq> JObj kvs) \<Longrightarrow> set_parts doc (part # rest) v = Inl (PathResolutionError part)"
  by (cases doc; cases rest) auto

lemma set_parts_is_obj: "set_parts doc parts v = Inr doc' \<Longrightarrow> \<exists>kvs. doc = JObj kvs"
  by (cases doc; cases parts; cases "tl parts") auto

lemma set_parts_value_at:
  "set_parts doc parts v = Inr doc' \<Longrightarrow> value_at doc' parts = Some v"
proof (induction parts arbitrary: doc doc')
  case Nil
  then show ?case by simp
next
  case (Cons part rest)
  from Cons.prems obtain kvs where doc: "doc = JObj kvs"
    using set_parts_is_obj by blast
  show ?case
  proof (cases "rest = []")
    case True
    then show ?thesis using Cons.prems doc by (auto simp: map_of_dict_set)
  next
    case False
    with Cons.prems doc obtain sub sub' where
      "map_of kvs part = Some (JObj sub)" "set_parts (JObj sub) rest v = Inr sub'"
      "doc' = JObj (dict_set part sub' kvs)"
      by (auto simp: set_parts_step split: option.splits json.splits sum.splits)
    then show ?thesis using Cons.IH by (simp add: map_of_dict_set)
  qed
qed

lemma set_parts_parent:
  "parts \<noteq> [] \<Longrightarrow> value_at doc (butlast parts) = Some (JObj kvs) \<Longrightarrow>
     \<exists>doc'. set_parts doc parts v = Inr doc' \<and>
       value_at doc' (butlast parts) = Some (JObj (dict_set (last parts) v kvs))"
proof (induction parts arbitrary: doc)
  case Nil
  then show ?case by simp
next
  case (Cons part rest)
  show ?case
  proof (cases "rest = []")
    case True
    then show ?thesis using Cons.prems by simp
  next
    case False
    then have bl: "butlast (part # rest) = part # butlast rest" by simp
    from Cons.prems(2) bl obtain top sub where doc: "doc = JObj top"
      and sub: "map_of top part = Some sub" and v: "value_at sub (butlast rest) = Some (JObj kvs)"
      by (cases doc) (auto split: option.splits)
    from Cons.IH [OF False v] obtain sub' where
      s: "set_parts sub rest v = Inr sub'"
      and p: "value_at sub' (butlast rest) = Some (JObj (dict_set (last rest) v kvs))"
      by blast
    from s obtain skvs where subo: "sub = JObj skvs" using set_parts_is_obj by blast
    have "set_parts doc (part # rest) v = Inr (JObj (dict_set part sub' top))"
      using False doc sub s subo by (simp add: set_parts_step)
    moreover have "value_at (JObj (dict_set part sub' top)) (butlast (part # rest))
        = Some (JObj (dict_set (last (part # rest)) v kvs))"
      using False p by (simp add: map_of_dict_set)
    ultimately show ?thesis by blast
  qed
qed

lemma set_parts_needs_parent:
  "parts \<noteq> [] \<Longrightarrow> set_parts doc parts v = Inr doc' \<Longrightarrow>
     \<exists>kvs. value_at doc (butlast parts) = Some (JObj kvs)"
proof (induction parts arbitrary: doc doc')
  case Nil
  then show ?case by simp
next
  case (Cons part rest)
  from Cons.prems obtain top where doc: "doc = JObj top"
    using set_parts_is_obj by blast
  show ?case
  proof (cases "rest = []")
    case True
    then show ?thesis using doc by simp
  next
    case False
    with Cons.prems doc obtain sub sub' where
      m: "map_of top part = Some (JObj sub)" and s: "set_parts (JObj sub) rest v = Inr sub'"
      by (auto simp: set_parts_step split: option.splits json.splits sum.splits)
    from Cons.IH [OF False s] obtain kvs where "value_at (JObj sub) (butlast rest) = Some (JObj kvs)"
      by blast
    then show ?thesis using False doc m by simp
  qed
qed

lemma set_parts_unresolved:
  "value_at doc pre = Some (JObj kvs) \<Longrightarrow> (\<And>sub. map_of kvs seg \<noteq> Some (JObj sub)) \<Longrightarrow>
     rest \<noteq> [] \<Longrightarrow> set_parts doc (pre @ seg # rest) v = Inl (PathResolutionError seg)"
proof (induction pre arbitrary: doc)
  case Nil
  then show ?case
    by (auto simp: set_parts_step split: option.splits json.splits)
next
  case (Cons p pre)
  from Cons.prems(1) obtain top sub where doc: "doc = JObj top"
    and sub: "map_of top p = Some sub" and v: "value_at sub pre = Some (JObj kvs)"
    by (cases doc) (auto split: option.splits)
  have r: "set_parts sub (pre @ seg # rest) v = Inl (PathResolutionError seg)"
    using Cons.IH [OF v Cons.prems(2) Cons.prems(3)] .
  show ?case
  proof (cases "\<exists>skvs. sub = JObj skvs")
    case True
    then show ?thesis using doc sub r by (auto simp: set_parts_step)
  next
    case False
    then have "pre = []" using v by (cases sub; cases pre) auto
    with v False show ?thesis by simp
  qed
qed

lemma set_parts_result_obj: "set_parts doc parts v = Inr doc' \<Longrightarrow> \<exists>kvs. doc' = JObj kvs"
  by (cases doc; cases parts; cases "tl parts")
     (auto split: option.splits json.splits sum.splits)

lemma set_parts_twice:
  "set_parts doc parts v1 = Inr d1 \<Longrightarrow> set_parts d1 parts v2 = set_parts doc parts v2"
proof (induction parts arbitrary: doc d1)
  case Nil
  then show ?case by simp
next
  case (Cons part rest)
  from Cons.prems obtain kvs where doc: "doc = JObj kvs"
    using set_parts_is_obj by blast
  show ?case
  proof (cases "rest = []")
    case True
    then show ?thesis using Cons.prems doc by (auto simp: dict_set_twice)
  next
    case False
    with Cons.prems doc obtain sub sub' where
      m: "map_of kvs part = Some (JObj sub)" and s: "set_parts (JObj sub) rest v1 = Inr sub'"
      and d1: "d1 = JObj (dict_set part sub' kvs)"
      by (auto simp: set_parts_step split: option.splits json.splits sum.splits)
    from s obtain skvs where so: "sub' = JObj skvs"
      using set_parts_result_obj by blast
    have ih: "set_parts (JObj skvs) rest v2 = set_parts (JObj sub) rest v2"
      using Cons.IH [OF s] so by simp
    show ?thesis
      unfolding d1 doc using False m so ih
      by (simp add: set_parts_step map_of_dict_set dict_set_twice split: sum.splits)
  qed
qed

lemma set_parts_frame:
  "diverge p q \<Longrightarrow> set_parts doc q v = Inr doc' \<Longrightarrow> value_at doc' p = value_at doc p"
proof (induction p q arbitrary: doc doc' rule: diverge.induct)
  case (1 a p b q)
  from "1.prems"(2) obtain kvs where doc: "doc = JObj kvs"
    using set_parts_is_obj by blast
  show ?case
  proof (cases "q = []")
    case True
    with "1.prems" doc have "a \<noteq> b" "doc' = JObj (dict_set b v kvs)" by auto
    then show ?thesis using doc by (simp add: map_of_dict_set)
  next
    case False
    with "1.prems"(2) doc obtain sub sub' where
      m: "map_of kvs b = Some (JObj sub)" and s: "set_parts (JObj sub) q v = Inr sub'"
      and d: "doc' = JObj (dict_set b sub' kvs)"
      by (auto simp: set_parts_step split: option.splits json.splits sum.splits)
    show ?thesis
    proof (cases "a = b")
      case True
      with "1.prems"(1) have "diverge p q" by simp
      from "1.IH" [OF True this s] show ?thesis
        using True d doc m by (simp add: map_of_dict_set)
    next
      case False
      then show ?thesis using d doc by (simp add: map_of_dict_set)
    qed
  qed
qed simp_all

lemma split_on_nonempty: "split_on sep s \<noteq> []"
  by (induction s) (auto split: list.splits)

lemma resolved_path_slash: "\<exists>t. resolved_path path = CHR ''/'' # t"
  by (cases path) (auto simp: resolved_path_def)

lemma parse_resolved_path:
  "parse_pointer (resolved_path path) = Inr (override_parts path) \<and> override_parts path \<noteq> []"
proof -
  obtain t where t: "resolved_path path = CHR ''/'' # t"
    using resolved_path_slash by blast
  have "parse_pointer (CHR ''/'' # t) = Inr (map unescape (split_on (CHR ''/'') t))"
    by (simp add: parse_pointer_def)
  then show ?thesis
    using t split_on_nonempty [of "CHR ''/''" t]
    by (simp add: override_parts_def pointer_parts_def)
qed

lemma startswith_slash: "startswith path ''/'' \<longleftrightarrow> (\<exists>t. path = CHR ''/'' # t)"
  by (cases path) (auto simp: startswith_def)

lemma override_pointer:
  "(if \<not> startswith path ''/'' then model_default_prefix @ path else path) = resolved_path path"
  by (cases path) (auto simp: startswith_def resolved_path_def model_default_prefix_def)

lemma set_overrides_set_all:
  "set_overrides set_ptr mdl ovs =
     set_all set_ptr mdl (map (\<lambda>(path, v). (resolved_path path, JStr v)) ovs)"
proof (induction ovs arbitrary: mdl)
  case Nil
  show ?case by simp
next
  case (Cons ov ovs)
  obtain path v where ov: "ov = (path, v)" by (cases ov)
  show ?case
    unfolding ov using Cons.IH
    by (simp only: set_overrides.simps override_pointer list.map prod.case set_all.simps
        split: sum.splits)
qed

lemma set_overrides_append:
  "set_overrides set_ptr mdl (xs @ ys) =
     (case set_overrides set_ptr mdl xs of
        Inl e \<Rightarrow> Inl e
      | Inr mdl' \<Rightarrow> set_overrides set_ptr mdl' ys)"
proof (induction xs arbitrary: mdl)
  case Nil
  show ?case by simp
next
  case (Cons x xs)
  obtain path v where x: "x = (path, v)" by (cases x)
  show ?case unfolding x using Cons.IH
    by (simp split: sum.splits)
qed

lemma set_overrides_one:
  "set_overrides set_pointer mdl ((path, v) # rest) =
     (case set_parts mdl (override_parts path) (JStr v) of
        Inl e \<Rightarrow> Inl e
      | Inr mdl' \<Rightarrow> set_overrides set_pointer mdl' rest)"
  using parse_resolved_path [of path]
  by (simp only: set_overrides.simps override_pointer set_pointer_def) simp

lemma set_overrides_single:
  "set_overrides set_pointer mdl [(path, v)] = set_parts mdl (override_parts path) (JStr v)"
  unfolding set_overrides_one by (simp split: sum.splits)

lemma set_overrides_frame:
  "list_all (\<lambda>(q, w). diverge p (override_parts q)) ys \<Longrightarrow>
   set_overrides set_pointer mdl ys = Inr mdl' \<Longrightarrow> value_at mdl' p = value_at mdl p"
proof (induction ys arbitrary: mdl)
  case Nil
  then show ?case by simp
next
  case (Cons y ys)
  obtain q w where y: "y = (q, w)" by (cases y)
  from Cons.prems(2) obtain m1 where
    1: "set_parts mdl (override_parts q) (JStr w) = Inr m1"
    and 2: "set_overrides set_pointer m1 ys = Inr mdl'"
    unfolding y set_overrides_one by (auto split: sum.splits)
  from Cons.prems(1) have d: "diverge p (override_parts q)"
    and r: "list_all (\<lambda>(q, w). diverge p (override_parts q)) ys"
    unfolding y by simp_all
  from Cons.IH [OF r 2] set_parts_frame [OF d 1] show ?case by simp
qed

lemma foldl_append_concat: "foldl (@) x xs = x @ concat xs"
  by (induction xs arbitrary: x) simp_all

lemma build_and_validate_model_flat:
  "build_and_validate_model base set_ptr validate opts =
     (case set_overrides set_ptr base (concat (case opt_m opts of None \<Rightarrow> [] | Some gs \<Rightarrow> gs)) of
        Inl e \<Rightarrow> Inl e
      | Inr mdl \<Rightarrow>
          (case validate mdl of Some msg \<Rightarrow> Inl (ValidationError msg) | None \<Rightarrow> Inr mdl))"
proof (cases "opt_m opts")
  case None
  then show ?thesis by (simp add: build_and_validate_model_def)
next
  case (Some gs)
  then show ?thesis
    by (cases gs) (simp_all add: build_and_validate_model_def foldl_append_concat)
qed

lemma last_write_wins:
  assumes "set_overrides set_pointer mdl (xs @ (p, v) # ys) = Inr mdl'"
    and "list_all (\<lambda>(q, w). diverge (override_parts p) (override_parts q)) ys"
  shows "value_at mdl' (override_parts p) = Some (JStr v)"
proof -
  from assms(1) obtain m0 where 0: "set_overrides set_pointer mdl xs = Inr m0"
    and 1: "set_overrides set_pointer m0 ((p, v) # ys) = Inr mdl'"
    unfolding set_overrides_append by (auto split: sum.splits)
  from 1 obtain m1 where 2: "set_parts m0 (override_parts p) (JStr v) = Inr m1"
    and 3: "set_overrides set_pointer m1 ys = Inr mdl'"
    unfolding set_overrides_one by (auto split: sum.splits)
  from set_overrides_frame [OF assms(2) 3] set_parts_value_at [OF 2] show ?thesis by simp
qed

lemma later_write_replaces:
  assumes "resolved_path p1 = resolved_path p2"
    and "set_overrides set_pointer mdl [(p1, v1)] = Inr m1"
  shows "set_overrides set_pointer mdl [(p1, v1), (p2, v2)] = set_overrides set_pointer mdl [(p2, v2)]"
proof -
  have eq: "override_parts p1 = override_parts p2"
    using assms(1) by (simp add: override_parts_def)
  from assms(2) have 1: "set_parts mdl (override_parts p2) (JStr v1) = Inr m1"
    unfolding set_overrides_one eq by (auto split: sum.splits)
  show ?thesis
    unfolding set_overrides_one eq using 1 set_parts_twice [OF 1, of "JStr v2"]
    by (simp split: sum.splits)
qed

lemmas pointer_eval = set_pointer_def parse_pointer_def unescape_def startswith_def
  model_default_prefix_def

subsection \<open>Model overrides\<close>

text \<open>
  C2. For every pair of the sequence: a path that begins with \<^verbatim>\<open>/\<close> is handed to the
  pointer-set as it is; to any other path the text \<^verbatim>\<open>/engine/\<close> is prepended, character
  for character. The whole loop is the sequence of pointer-sets on the paths so
  resolved. This holds for every pointer-set function.
\<close>

theorem override_path_prefix:
  "set_overrides set_ptr mdl ((CHR ''/'' # t, v) # rest) =
     (case set_ptr mdl (CHR ''/'' # t) (JStr v) of
        Inl e \<Rightarrow> Inl e
      | Inr mdl' \<Rightarrow> set_overrides set_ptr mdl' rest) \<and>
   ((\<forall>t. path \<noteq> CHR ''/'' # t) \<longrightarrow>
      set_overrides set_ptr mdl ((path, v) # rest) =
        (case set_ptr mdl (''/engine/'' @ path) (JStr v) of
           Inl e \<Rightarrow> Inl e
         | Inr mdl' \<Rightarrow> set_overrides set_ptr mdl' rest)) \<and>
   set_overrides set_ptr mdl ovs =
     set_all set_ptr mdl (map (\<lambda>(path, v). (resolved_path path, JStr v)) ovs)"
proof (intro conjI impI)
  show "set_overrides set_ptr mdl ((CHR ''/'' # t, v) # rest) =
     (case set_ptr mdl (CHR ''/'' # t) (JStr v) of
        Inl e \<Rightarrow> Inl e
      | Inr mdl' \<Rightarrow> set_overrides set_ptr mdl' rest)"
    by (simp add: startswith_def)
next
  assume "\<forall>t. path \<noteq> CHR ''/'' # t"
  then have "\<not> startswith path ''/''" by (simp add: startswith_slash)
  then show "set_overrides set_ptr mdl ((path, v) # rest) =
        (case set_ptr mdl (''/engine/'' @ path) (JStr v) of
           Inl e \<Rightarrow> Inl e
         | Inr mdl' \<Rightarrow> set_overrides set_ptr mdl' rest)"
    by (simp add: model_default_prefix_def)
next
  show "set_overrides set_ptr mdl ovs =
     set_all set_ptr mdl (map (\<lambda>(path, v). (resolved_path path, JStr v)) ovs)"
    by (rule set_overrides_set_all)
qed

theorem override_path_prefix_witness:
  "set_overrides set_pointer example_base [(''rpm_idle'', ''850'')] =
     set_pointer example_base ''/engine/rpm_idle'' (JStr ''850'') \<and>
   set_overrides set_pointer example_base [(''rpm_idle'', ''850'')] =
     Inr (JObj [(''engine'', JObj [(''rpm_idle'', JStr ''850'')])])"
proof -
  have n: "\<forall>t. ''rpm_idle'' \<noteq> CHR ''/'' # t" by simp
  have s: "set_pointer example_base ''/engine/rpm_idle'' (JStr ''850'') =
      Inr (JObj [(''engine'', JObj [(''rpm_idle'', JStr ''850'')])])"
    by (simp add: pointer_eval example_base_def)
  from override_path_prefix [where set_ptr = set_pointer and mdl = example_base and rest = "[]"
      and path = "''rpm_idle''" and v = "''850''"] n
  have "set_overrides set_pointer example_base [(''rpm_idle'', ''850'')] =
        (case set_pointer example_base (''/engine/'' @ ''rpm_idle'') (JStr ''850'') of
           Inl e \<Rightarrow> Inl e
         | Inr mdl' \<Rightarrow> set_overrides set_pointer mdl' [])"
    by blast
  then show ?thesis using s by simp
qed

text \<open>
  C3. The groups of \<^verbatim>\<open>-m\<close> are concatenated in order and the pairs are applied one
  after the other, each on the document the earlier ones left. The value of the last
  write to a path is the value found there at the end, whatever was written there
  before and whatever is written afterwards on paths that part from it; and two writes
  to the same resolved path leave the document that the later write alone leaves.
\<close>

theorem overrides_in_order_last_wins:
  "build_and_validate_model base set_ptr validate opts =
     (case set_overrides set_ptr base
             (concat (case opt_m opts of None \<Rightarrow> [] | Some groups \<Rightarrow> groups)) of
        Inl e \<Rightarrow> Inl e
      | Inr mdl \<Rightarrow>
          (case validate mdl of Some msg \<Rightarrow> Inl (ValidationError msg) | None \<Rightarrow> Inr mdl)) \<and>
   set_overrides set_ptr mdl (xs @ ys) =
     (case set_overrides set_ptr mdl xs of
        Inl e \<Rightarrow> Inl e
      | Inr mdl' \<Rightarrow> set_overrides set_ptr mdl' ys) \<and>
   (set_overrides set_pointer mdl (xs @ (p, v) # ys) = Inr mdl' \<and>
    list_all (\<lambda>(q, w). diverge (override_parts p) (override_parts q)) ys \<longrightarrow>
      value_at mdl' (override_parts p) = Some (JStr v)) \<and>
   (resolved_path p1 = resolved_path p2 \<and> set_overrides set_pointer mdl [(p1, v1)] = Inr m1 \<longrightarrow>
      set_overrides set_pointer mdl [(p1, v1), (p2, v2)] =
        set_overrides set_pointer mdl [(p2, v2)])"
  using build_and_validate_model_flat [of base set_ptr validate opts]
    set_overrides_append [of set_ptr mdl xs ys]
    last_write_wins [of mdl xs p v ys mdl']
    later_write_replaces [of p1 p2 mdl v1 m1 v2]
  by (intro conjI impI) (simp_all only:)

theorem overrides_in_order_last_wins_witness:
  "build_and_validate_model example_base set_pointer accept_all
      (example_opts\<lparr>opt_m :=
         Some [[(''rpm_idle'', ''700'')], [(''rpm_idle'', ''900''), (''p_max'', ''660'')]]\<rparr>) =
     Inr (JObj [(''engine'', JObj [(''rpm_idle'', JStr ''900''), (''p_max'', JStr ''660'')])]) \<and>
   value_at (JObj [(''engine'', JObj [(''rpm_idle'', JStr ''900''), (''p_max'', JStr ''660'')])])
       [''engine'', ''rpm_idle'']
     = Some (JStr ''900'') \<and>
   set_overrides set_pointer example_base [(''rpm_idle'', ''700''), (''/engine/rpm_idle'', ''900'')]
     = set_overrides set_pointer example_base [(''/engine/rpm_idle'', ''900'')]"
proof -
  let ?o = "example_opts\<lparr>opt_m :=
         Some [[(''rpm_idle'', ''700'')], [(''rpm_idle'', ''900''), (''p_max'', ''660'')]]\<rparr>"
  let ?d = "JObj [(''engine'', JObj [(''rpm_idle'', JStr ''900''), (''p_max'', JStr ''660'')])]"
  note T = overrides_in_order_last_wins [where base = example_base and set_ptr = set_pointer
      and validate = accept_all and opts = ?o and mdl = example_base
      and xs = "[(''rpm_idle'', ''700'')]" and p = "''rpm_idle''" and v = "''900''"
      and ys = "[(''p_max'', ''660'')]" and mdl' = ?d
      and ?p1.0 = "''rpm_idle''" and ?p2.0 = "''/engine/rpm_idle''" and ?v1.0 = "''700''"
      and ?m1.0 = "JObj [(''engine'', JObj [(''rpm_idle'', JStr ''700'')])]"
      and ?v2.0 = "''900''"]
  have run: "set_overrides set_pointer example_base
      ([(''rpm_idle'', ''700'')] @ (''rpm_idle'', ''900'') # [(''p_max'', ''660'')]) = Inr ?d"
    by (simp add: pointer_eval example_base_def)
  have parts: "override_parts ''rpm_idle'' = [''engine'', ''rpm_idle'']"
    "override_parts ''p_max'' = [''engine'', ''p_max'']"
    by (simp_all add: override_parts_def pointer_parts_def resolved_path_def pointer_eval)
  have apart: "list_all (\<lambda>(q, w). diverge (override_parts ''rpm_idle'') (override_parts q))
      [(''p_max'', ''660'')]"
    by (simp add: parts)
  have same: "resolved_path ''rpm_idle'' = resolved_path ''/engine/rpm_idle''"
    by (simp add: resolved_path_def)
  have first: "set_overrides set_pointer example_base [(''rpm_idle'', ''700'')] =
      Inr (JObj [(''engine'', JObj [(''rpm_idle'', JStr ''700'')])])"
    by (simp add: pointer_eval example_base_def)
  have b: "build_and_validate_model example_base set_pointer accept_all ?o = Inr ?d"
    using conjunct1 [OF T] run by (simp add: example_opts_def accept_all_def)
  have l: "value_at ?d [''engine'', ''rpm_idle''] = Some (JStr ''900'')"
    using conjunct1 [OF conjunct2 [OF conjunct2 [OF T]]] run apart parts(1) by simp
  have r: "set_overrides set_pointer example_base
        [(''rpm_idle'', ''700''), (''/engine/rpm_idle'', ''900'')]
     = set_overrides set_pointer example_base [(''/engine/rpm_idle'', ''900'')]"
    using conjunct2 [OF conjunct2 [OF conjunct2 [OF T]]] same first by blast
  show ?thesis by (rule conjI [OF b conjI [OF l r]])
qed

text \<open>
  C4. The value of an override goes into the document as the string it is, for every
  string \<open>v\<close>: on the base document of the example, the relative path \<^verbatim>\<open>rpm_idle\<close> puts
  the string at \<^verbatim>\<open>/engine/rpm_idle\<close>, and the path \<^verbatim>\<open>/engine/p_max\<close> is set directly.
\<close>

theorem override_values_are_raw_strings:
  "build_and_validate_model example_base set_pointer accept_all
      (example_opts\<lparr>opt_m := Some [[(''rpm_idle'', ''850'')]]\<rparr>) =
     Inr (JObj [(''engine'', JObj [(''rpm_idle'', JStr ''850'')])]) \<and>
   build_and_validate_model example_base set_pointer accept_all
      (example_opts\<lparr>opt_m := Some [[(''/engine/p_max'', ''660'')]]\<rparr>) =
     Inr (JObj [(''engine'', JObj [(''rpm_idle'', JNum 700), (''p_max'', JStr ''660'')])]) \<and>
   set_overrides set_pointer example_base [(''rpm_idle'', v)] =
     Inr (JObj [(''engine'', JObj [(''rpm_idle'', JStr v)])]) \<and>
   set_overrides set_pointer example_base [(''/engine/p_max'', v)] =
     Inr (JObj [(''engine'', JObj [(''rpm_idle'', JNum 700), (''p_max'', JStr v)])]) \<and>
   key_value_pair ''rpm_idle=850'' = Inr (''rpm_idle'', ''850'')"
  by (simp add: build_and_validate_model_def pointer_eval example_base_def example_opts_def
      accept_all_def key_value_pair_result key_value_match at_eol_def is_space_def
      is_alpha_def is_word_def not_newline_def)

text \<open>
  The pair with the absolute path is one that the overlay loop handles, but not one
  that \<^verbatim>\<open>key_value_pair\<close>, the argument type of \<^verbatim>\<open>-m\<close>, lets through: its key has to
  begin with a letter.
\<close>

lemma key_value_pair_rejects_absolute_path:
  "key_value_pair ''/engine/p_max=660'' =
     Inl (ArgumentTypeError ''Not a KEY=VALUE syntax: /engine/p_max=660'')"
  by (simp add: key_value_pair_result key_value_match is_space_def is_alpha_def)

text \<open>
  C5. When a segment before the last does not resolve to an existing mapping (its key
  is missing, or its value is no container), the override fails with the
  PathResolutionError that names this segment, and no document is returned.
\<close>

theorem missing_container_fails:
  "(override_parts path = pre @ seg # rest \<and> rest \<noteq> [] \<and>
    value_at mdl pre = Some (JObj kvs) \<and> (\<forall>sub. map_of kvs seg \<noteq> Some (JObj sub)) \<longrightarrow>
      set_overrides set_pointer mdl ((path, v) # later) = Inl (PathResolutionError seg)) \<and>
   build_and_validate_model example_base set_pointer validate
      (example_opts\<lparr>opt_m := Some [[(''/nonexistent/foo'', ''1'')]]\<rparr>) =
     Inl (PathResolutionError ''nonexistent'')"
proof (intro conjI impI)
  assume a: "override_parts path = pre @ seg # rest \<and> rest \<noteq> [] \<and>
    value_at mdl pre = Some (JObj kvs) \<and> (\<forall>sub. map_of kvs seg \<noteq> Some (JObj sub))"
  then have p: "override_parts path = pre @ seg # rest" and r: "rest \<noteq> []"
    and v: "value_at mdl pre = Some (JObj kvs)"
    and n: "map_of kvs seg \<noteq> Some (JObj sub)" for sub
    by blast+
  have "set_parts mdl (pre @ seg # rest) (JStr v) = Inl (PathResolutionError seg)"
    using v n r by (rule set_parts_unresolved)
  then show "set_overrides set_pointer mdl ((path, v) # later) = Inl (PathResolutionError seg)"
    by (simp only: set_overrides_one p sum.case)
next
  show "build_and_validate_model example_base set_pointer validate
      (example_opts\<lparr>opt_m := Some [[(''/nonexistent/foo'', ''1'')]]\<rparr>) =
     Inl (PathResolutionError ''nonexistent'')"
    by (simp add: build_and_validate_model_def pointer_eval example_base_def example_opts_def)
qed

theorem missing_container_fails_witness:
  "set_overrides set_pointer example_base [(''rpm_idle/foo'', ''1'')] =
     Inl (PathResolutionError ''rpm_idle'') \<and>
   set_overrides set_pointer example_base [(''/nonexistent/foo'', ''1'')] =
     Inl (PathResolutionError ''nonexistent'')"
proof -
  have p1: "override_parts ''rpm_idle/foo'' = [''engine''] @ ''rpm_idle'' # [''foo'']"
    by (simp add: override_parts_def pointer_parts_def resolved_path_def pointer_eval)
  have v1: "value_at example_base [''engine''] = Some (JObj [(''rpm_idle'', JNum 700)])"
    by (simp add: example_base_def)
  have n1: "\<forall>sub. map_of [(''rpm_idle'', JNum 700)] ''rpm_idle'' \<noteq> Some (JObj sub)" by simp
  have p2: "override_parts ''/nonexistent/foo'' = [] @ ''nonexistent'' # [''foo'']"
    by (simp add: override_parts_def pointer_parts_def resolved_path_def pointer_eval)
  have v2: "value_at example_base [] = Some (JObj [(''engine'', JObj [(''rpm_idle'', JNum 700)])])"
    by (simp add: example_base_def)
  have n2: "\<forall>sub. map_of [(''engine'', JObj [(''rpm_idle'', JNum 700)])] ''nonexistent'' \<noteq> Some (JObj sub)"
    by simp
  have r: "[''foo''] \<noteq> []" by simp
  have a: "set_overrides set_pointer example_base [(''rpm_idle/foo'', ''1'')] =
     Inl (PathResolutionError ''rpm_idle'')"
    using conjunct1 [OF missing_container_fails [of "''rpm_idle/foo''" "[''engine'']" "''rpm_idle''"
        "[''foo'']" example_base "[(''rpm_idle'', JNum 700)]" "''1''" "[]"]] p1 v1 n1 r
    by blast
  have b: "set_overrides set_pointer example_base [(''/nonexistent/foo'', ''1'')] =
     Inl (PathResolutionError ''nonexistent'')"
    using conjunct1 [OF missing_container_fails [of "''/nonexistent/foo''" "[]" "''nonexistent''"
        "[''foo'']" example_base "[(''engine'', JObj [(''rpm_idle'', JNum 700)])]" "''1''" "[]"]]
      p2 v2 n2 r
    by blast
  show ?thesis by (rule conjI [OF a b])
qed

text \<open>
  C10. When every segment before the last resolves to an existing mapping, the override
  succeeds, whether or not the last segment is a key of the parent: the parent becomes
  \<open>dict_set\<close> of that key, which appends a key that was absent; and an override fails
  only if the segments before the last do not resolve to a mapping.
\<close>

theorem new_key_is_inserted:
  "(value_at mdl (butlast (override_parts path)) = Some (JObj kvs) \<longrightarrow>
      (\<exists>mdl'. set_overrides set_pointer mdl [(path, v)] = Inr mdl' \<and>
         value_at mdl' (butlast (override_parts path)) =
           Some (JObj (dict_set (last (override_parts path)) (JStr v) kvs)) \<and>
         value_at mdl' (override_parts path) = Some (JStr v))) \<and>
   (map_of kvs key = None \<longrightarrow> dict_set key w kvs = kvs @ [(key, w)]) \<and>
   (set_overrides set_pointer mdl [(path, v)] = Inl e \<longrightarrow>
      (\<nexists>kvs. value_at mdl (butlast (override_parts path)) = Some (JObj kvs)))"
proof (intro conjI impI)
  assume a: "value_at mdl (butlast (override_parts path)) = Some (JObj kvs)"
  have ne: "override_parts path \<noteq> []" using parse_resolved_path by blast
  from set_parts_parent [OF ne a, of "JStr v"] obtain mdl' where
    s: "set_parts mdl (override_parts path) (JStr v) = Inr mdl'"
    and p: "value_at mdl' (butlast (override_parts path)) =
           Some (JObj (dict_set (last (override_parts path)) (JStr v) kvs))"
    by blast
  have "set_overrides set_pointer mdl [(path, v)] = Inr mdl'"
    by (simp only: set_overrides_single s)
  with p set_parts_value_at [OF s]
  show "\<exists>mdl'. set_overrides set_pointer mdl [(path, v)] = Inr mdl' \<and>
         value_at mdl' (butlast (override_parts path)) =
           Some (JObj (dict_set (last (override_parts path)) (JStr v) kvs)) \<and>
         value_at mdl' (override_parts path) = Some (JStr v)"
    by blast
next
  assume "map_of kvs key = None"
  then show "dict_set key w kvs = kvs @ [(key, w)]" by (rule dict_set_absent)
next
  assume f: "set_overrides set_pointer mdl [(path, v)] = Inl e"
  have ne: "override_parts path \<noteq> []" using parse_resolved_path by blast
  show "\<nexists>kvs. value_at mdl (butlast (override_parts path)) = Some (JObj kvs)"
  proof
    assume "\<exists>kvs. value_at mdl (butlast (override_parts path)) = Some (JObj kvs)"
    then obtain kvs where "value_at mdl (butlast (override_parts path)) = Some (JObj kvs)"
      by blast
    from set_parts_parent [OF ne this, of "JStr v"] obtain mdl' where
      "set_parts mdl (override_parts path) (JStr v) = Inr mdl'" by blast
    then have "set_overrides set_pointer mdl [(path, v)] = Inr mdl'"
      by (simp only: set_overrides_single)
    with f show False by simp
  qed
qed

theorem new_key_is_inserted_witness:
  "(\<exists>mdl'. set_overrides set_pointer example_base [(''p_max'', ''660'')] = Inr mdl' \<and>
      value_at mdl' [''engine''] = Some (JObj [(''rpm_idle'', JNum 700), (''p_max'', JStr ''660'')]) \<and>
      value_at mdl' [''engine'', ''p_max''] = Some (JStr ''660'')) \<and>
   dict_set ''p_max'' (JStr ''660'') [(''rpm_idle'', JNum 700)] =
     [(''rpm_idle'', JNum 700)] @ [(''p_max'', JStr ''660'')] \<and>
   (\<nexists>kvs. value_at example_base (butlast (override_parts ''nonexistent/foo'')) = Some (JObj kvs))"
proof -
  have parts: "override_parts ''p_max'' = [''engine'', ''p_max'']"
    by (simp add: override_parts_def pointer_parts_def resolved_path_def pointer_eval)
  have v: "value_at example_base (butlast (override_parts ''p_max'')) =
      Some (JObj [(''rpm_idle'', JNum 700)])"
    by (simp add: parts example_base_def)
  have m: "map_of [(''rpm_idle'', JNum 700)] ''p_max'' = None" by simp
  have f: "set_overrides set_pointer example_base [(''nonexistent/foo'', ''1'')] =
      Inl (PathResolutionError ''nonexistent'')"
    by (simp add: pointer_eval example_base_def)
  note T1 = new_key_is_inserted [of example_base "''p_max''" "[(''rpm_idle'', JNum 700)]" "''660''"
      "''p_max''" "JStr ''660''" "PathResolutionError ''x''"]
  note T2 = new_key_is_inserted [of example_base "''nonexistent/foo''" "[]" "''1''"
      "''p_max''" "JStr ''660''" "PathResolutionError ''nonexistent''"]
  from conjunct1 [OF T1] v obtain mdl' where
    1: "set_overrides set_pointer example_base [(''p_max'', ''660'')] = Inr mdl'"
    and 2: "value_at mdl' (butlast (override_parts ''p_max'')) =
           Some (JObj (dict_set (last (override_parts ''p_max'')) (JStr ''660'') [(''rpm_idle'', JNum 700)]))"
    and 3: "value_at mdl' (override_parts ''p_max'') = Some (JStr ''660'')"
    by blast
  have a: "\<exists>mdl'. set_overrides set_pointer example_base [(''p_max'', ''660'')] = Inr mdl' \<and>
      value_at mdl' [''engine''] = Some (JObj [(''rpm_idle'', JNum 700), (''p_max'', JStr ''660'')]) \<and>
      value_at mdl' [''engine'', ''p_max''] = Some (JStr ''660'')"
    using 1 2 3 by (simp add: parts)
  have b: "dict_set ''p_max'' (JStr ''660'') [(''rpm_idle'', JNum 700)] =
     [(''rpm_idle'', JNum 700)] @ [(''p_max'', JStr ''660'')]"
    using conjunct1 [OF conjunct2 [OF T1]] m by blast
  have c: "\<nexists>kvs. value_at example_base (butlast (override_parts ''nonexistent/foo'')) = Some (JObj kvs)"
    using conjunct2 [OF conjunct2 [OF T2]] f by blast
  show ?thesis by (rule conjI [OF a conjI [OF b c]])
qed

subsection \<open>How \<^verbatim>\<open>main\<close> ends\<close>

lemma validate_opts_same: "validate_opts opts = Inr opts' \<Longrightarrow> opts' = opts"
  unfolding validate_opts_def validate_rel_opts_result by (simp split: option.splits)

text \<open>
  C9. After the arguments are parsed: without \<^verbatim>\<open>--debug\<close>, a ValueError ends the run
  with exit code 3 and a failed validation with exit code 4, each after one message
  that begins with the program name; with \<^verbatim>\<open>--debug\<close> the exception itself leaves
  \<^verbatim>\<open>main\<close>.
\<close>

theorem main_exit_codes:
  "parse_args argv = Inr opts \<Longrightarrow>
     (\<not> debug opts \<and> validate_opts opts = Inl (ValueError msg) \<longrightarrow>
        main parse_args base set_ptr validate DEBUG0 argv =
          SystemExit 3 (''fuefit: '' @ msg @ usage_hint)) \<and>
     (\<not> debug opts \<and> validate_opts opts = Inr opts \<and>
      build_and_validate_model base set_ptr validate opts = Inl (ValueError msg) \<longrightarrow>
        main parse_args base set_ptr validate DEBUG0 argv =
          SystemExit 3 (''fuefit: '' @ msg @ usage_hint)) \<and>
     (\<not> debug opts \<and> validate_opts opts = Inr opts \<and>
      build_and_validate_model base set_ptr validate opts = Inl (ValidationError msg) \<longrightarrow>
        main parse_args base set_ptr validate DEBUG0 argv =
          SystemExit 4 (''fuefit: Model validation failed due to: '' @ msg @ usage_hint)) \<and>
     (debug opts \<and> validate_opts opts = Inl ex \<longrightarrow>
        main parse_args base set_ptr validate DEBUG0 argv = Raised ex) \<and>
     (debug opts \<and> validate_opts opts = Inr opts \<and>
      build_and_validate_model base set_ptr validate opts = Inl ex \<longrightarrow>
        main parse_args base set_ptr validate DEBUG0 argv = Raised ex)"
  by (cases ex)
     (simp_all add: main_def on_error_def program_name_def indent_def usage_hint_def)

theorem main_exit_codes_witness:
  "main (\<lambda>argv. Inr two_formats) example_base set_pointer accept_all True [] =
     SystemExit 3 (''fuefit: Number of --iformat(2) mismatches number of --infile(3)!'' @ usage_hint) \<and>
   main (\<lambda>argv. Inr example_opts) example_base set_pointer reject_all True [] =
     SystemExit 4
       (''fuefit: Model validation failed due to: fuel is a required property'' @ usage_hint) \<and>
   main (\<lambda>argv. Inr (two_formats\<lparr>debug := True\<rparr>)) example_base set_pointer accept_all True [] =
     Raised (ValueError ''Number of --iformat(2) mismatches number of --infile(3)!'') \<and>
   main (\<lambda>argv. Inr (example_opts\<lparr>debug := True\<rparr>)) example_base set_pointer reject_all True [] =
     Raised (ValidationError ''fuel is a required property'')"
proof -
  let ?m = "''Number of --iformat(2) mismatches number of --infile(3)!''"
  let ?f = "''fuel is a required property''"
  have v1: "validate_opts two_formats = Inl (ValueError ?m)"
    by (simp add: validate_opts_def rel_opts_def dopts_def n_infiles_def two_formats_def
        mismatch_message_def str_nat.simps)
  have v1d: "validate_opts (two_formats\<lparr>debug := True\<rparr>) = Inl (ValueError ?m)"
    by (simp add: validate_opts_def rel_opts_def dopts_def n_infiles_def two_formats_def
        mismatch_message_def str_nat.simps)
  have v2: "validate_opts example_opts = Inr example_opts"
    by (simp add: validate_opts_def rel_opts_def dopts_def example_opts_def)
  have v2d: "validate_opts (example_opts\<lparr>debug := True\<rparr>) = Inr (example_opts\<lparr>debug := True\<rparr>)"
    by (simp add: validate_opts_def rel_opts_def dopts_def example_opts_def)
  have b2: "build_and_validate_model example_base set_pointer reject_all example_opts =
      Inl (ValidationError ?f)"
    by (simp add: build_and_validate_model_def example_opts_def reject_all_def)
  have b2d: "build_and_validate_model example_base set_pointer reject_all
      (example_opts\<lparr>debug := True\<rparr>) = Inl (ValidationError ?f)"
    by (simp add: build_and_validate_model_def example_opts_def reject_all_def)
  have d1: "\<not> debug two_formats" "\<not> debug example_opts"
    by (simp_all add: two_formats_def example_opts_def)
  have d2: "debug (two_formats\<lparr>debug := True\<rparr>)" "debug (example_opts\<lparr>debug := True\<rparr>)"
    by simp_all
  note T1 = main_exit_codes [where parse_args = "\<lambda>argv. Inr two_formats" and argv = "[]"
      and opts = two_formats and msg = ?m and base = example_base and set_ptr = set_pointer
      and validate = accept_all and ?DEBUG0.0 = True and ex = "ValueError ?m", OF refl]
  note T2 = main_exit_codes [where parse_args = "\<lambda>argv. Inr example_opts" and argv = "[]"
      and opts = example_opts and msg = ?f and base = example_base and set_ptr = set_pointer
      and validate = reject_all and ?DEBUG0.0 = True and ex = "ValidationError ?f", OF refl]
  note T3 = main_exit_codes [where parse_args = "\<lambda>argv. Inr (two_formats\<lparr>debug := True\<rparr>)"
      and argv = "[]" and opts = "two_formats\<lparr>debug := True\<rparr>" and msg = ?m
      and base = example_base and set_ptr = set_pointer
      and validate = accept_all and ?DEBUG0.0 = True and ex = "ValueError ?m", OF refl]
  note T4 = main_exit_codes [where parse_args = "\<lambda>argv. Inr (example_opts\<lparr>debug := True\<rparr>)"
      and argv = "[]" and opts = "example_opts\<lparr>debug := True\<rparr>" and msg = ?f
      and base = example_base and set_ptr = set_pointer
      and validate = reject_all and ?DEBUG0.0 = True and ex = "ValidationError ?f", OF refl]
  have a: "main (\<lambda>argv. Inr two_formats) example_base set_pointer accept_all True [] =
     SystemExit 3 (''fuefit: '' @ ?m @ usage_hint)"
    using conjunct1 [OF T1] v1 d1(1) by blast
  have b: "main (\<lambda>argv. Inr example_opts) example_base set_pointer reject_all True [] =
     SystemExit 4 (''fuefit: Model validation failed due to: '' @ ?f @ usage_hint)"
    using conjunct1 [OF conjunct2 [OF conjunct2 [OF T2]]] v2 b2 d1(2) by blast
  have c: "main (\<lambda>argv. Inr (two_formats\<lparr>debug := True\<rparr>)) example_base set_pointer
      accept_all True [] = Raised (ValueError ?m)"
    using conjunct1 [OF conjunct2 [OF conjunct2 [OF conjunct2 [OF T3]]]] v1d d2(1) by blast
  have d: "main (\<lambda>argv. Inr (example_opts\<lparr>debug := True\<rparr>)) example_base set_pointer
      reject_all True [] = Raised (ValidationError ?f)"
    using conjunct2 [OF conjunct2 [OF conjunct2 [OF conjunct2 [OF T4]]]] v2d b2d d2(2) by blast
  from a b c d show ?thesis by simp
qed

end
